theory Spec2Isabelle
  imports Main "HOL-Library.AList" "HOL-Library.Sublist" "HOL-Library.Multiset"
begin

section \<open>The file system behind the path adapter\<close>

text \<open>
  The plugin reaches the disk through Mozilla's \<^verbatim>\<open>IOUtils\<close> (Zotero 8) or the
  \<^verbatim>\<open>OS.File\<close> shim (Zotero 7); both branches of every wrapper do the same thing, so
  one model serves both. A path names an entry by its exact text. A file carries the
  modification time that \<^verbatim>\<open>stat\<close> reports (\<open>None\<close> when \<^verbatim>\<open>stat\<close> is refused) and
  its content. Directories exist when they were created explicitly or when something
  lies below them; the time that \<^verbatim>\<open>stat\<close> reports for a directory is kept in a table of
  its own (no entry when \<^verbatim>\<open>stat\<close> is refused), which the operations below leave as it is.
\<close>

type_synonym path = string

record file_entry =
  lastModified :: "int option"
  content :: string

record filesystem =
  files :: "(path \<times> file_entry) list"
  dirs :: "path list"
  dirTimes :: "(path \<times> int) list"

datatype error =
    SourceNotFound      \<comment> \<open>\<^verbatim>\<open>Error('Source file not found')\<close>\<close>
  | TooManyFiles        \<comment> \<open>\<^verbatim>\<open>Error('Too many files with same name')\<close>\<close>
  | IOFailure           \<comment> \<open>a rejected \<^verbatim>\<open>IOUtils\<close> call\<close>
  | JSONSyntaxError     \<comment> \<open>\<^verbatim>\<open>JSON.parse\<close> on text that is not JSON\<close>
  | JSTypeError         \<comment> \<open>property access on \<^verbatim>\<open>null\<close>, or a call of a missing method\<close>

definition lookup :: "filesystem \<Rightarrow> path \<Rightarrow> file_entry option" where
  "lookup fs p = map_of (files fs) p"

definition dir_prefix :: "path \<Rightarrow> path" where
  "dir_prefix d = (if d \<noteq> [] \<and> last d = CHR ''/'' then d else d @ ''/'')"

definition under :: "path \<Rightarrow> path \<Rightarrow> bool" where
  "under d p \<longleftrightarrow> prefix (dir_prefix d) p \<and> p \<noteq> dir_prefix d"

definition all_paths :: "filesystem \<Rightarrow> path list" where
  "all_paths fs = map fst (files fs) @ dirs fs"

definition isDirectory :: "filesystem \<Rightarrow> path \<Rightarrow> bool" where
  "isDirectory fs d \<longleftrightarrow>
     lookup fs d = None \<and> (d \<in> set (dirs fs) \<or> (\<exists>p \<in> set (all_paths fs). under d p))"

text \<open>\<^verbatim>\<open>fileExists\<close>: \<^verbatim>\<open>IOUtils.exists\<close> answers for files and directories alike.\<close>

definition fileExists :: "filesystem \<Rightarrow> path \<Rightarrow> bool" where
  "fileExists fs p \<longleftrightarrow> lookup fs p \<noteq> None \<or> isDirectory fs p"

text \<open>
  \<^verbatim>\<open>IOUtils.stat\<close> answers for a file and for a directory, and is rejected for a path at
  which nothing exists.
\<close>

definition stat :: "filesystem \<Rightarrow> path \<Rightarrow> error + int" where
  "stat fs p =
     (case lookup fs p of
        Some f \<Rightarrow> (case lastModified f of None \<Rightarrow> Inl IOFailure | Some t \<Rightarrow> Inr t)
      | None \<Rightarrow>
          if isDirectory fs p
          then (case map_of (dirTimes fs) p of None \<Rightarrow> Inl IOFailure | Some t \<Rightarrow> Inr t)
          else Inl IOFailure)"

text \<open>\<^verbatim>\<open>getFileModTime\<close>: the \<^verbatim>\<open>try\<close> around \<^verbatim>\<open>stat\<close> turns every failure into 0.\<close>

definition getFileModTime :: "filesystem \<Rightarrow> path \<Rightarrow> int" where
  "getFileModTime fs p = (case stat fs p of Inr t \<Rightarrow> t | Inl e \<Rightarrow> 0)"

subsection \<open>Path helpers\<close>

definition toLowerCase_char :: "char \<Rightarrow> char" where
  "toLowerCase_char c =
     (let n = (of_char c :: nat) in if 65 \<le> n \<and> n \<le> 90 then char_of (n + 32) else c)"

text \<open>\<^verbatim>\<open>getFileExtension\<close>: what follows the last dot, in lower case; empty without a dot.\<close>

definition getFileExtension :: "string \<Rightarrow> string" where
  "getFileExtension filename =
     (if CHR ''.'' \<notin> set filename then []
      else map toLowerCase_char (rev (takeWhile (\<lambda>c. c \<noteq> CHR ''.'') (rev filename))))"

text \<open>
  \<^verbatim>\<open>getParentDir\<close> (\<^verbatim>\<open>PathUtils.parent\<close>, \<^verbatim>\<open>OS.Path.dirname\<close>): the path without its
  last component; the empty path stands for \<^verbatim>\<open>null\<close>, the parent of the root.
\<close>

definition getParentDir :: "path \<Rightarrow> path" where
  "getParentDir p =
     (let q = rev (dropWhile (\<lambda>c. c \<noteq> CHR ''/'') (rev p))
      in if q = [] then []
         else if q = ''/'' then (if p = ''/'' then [] else ''/'')
         else butlast q)"

fun collapse_sep :: "string \<Rightarrow> string" where
  "collapse_sep (a # b # r) =
     (if a = CHR ''/'' \<and> b = CHR ''/'' then collapse_sep (b # r) else a # collapse_sep (b # r))"
| "collapse_sep xs = xs"

fun join_with :: "string \<Rightarrow> string list \<Rightarrow> string" where
  "join_with sep [] = []"
| "join_with sep [x] = x"
| "join_with sep (x # y # r) = x @ sep @ join_with sep (y # r)"

text \<open>
  \<^verbatim>\<open>joinPath\<close>, in its own implementation (the Zotero 7 branch) with the separator of a
  non-Windows host: empty parts are dropped, the rest joined, runs of separators squeezed.
\<close>

definition joinPath :: "string list \<Rightarrow> path" where
  "joinPath parts = collapse_sep (join_with ''/'' (filter (\<lambda>p. p \<noteq> []) parts))"

fun string_of_nat :: "nat \<Rightarrow> string" where
  "string_of_nat n =
     (if n < 10 then [char_of (48 + n)]
      else string_of_nat (n div 10) @ [char_of (48 + n mod 10)])"

declare string_of_nat.simps [simp del]

subsection \<open>Primitive operations\<close>

text \<open>
  \<^verbatim>\<open>IOUtils.makeDirectory\<close> with \<^verbatim>\<open>ignoreExisting\<close> and \<^verbatim>\<open>createAncestors\<close>; it is
  rejected when a file sits at the path.
\<close>

definition ensureDirectory :: "filesystem \<Rightarrow> path \<Rightarrow> error + filesystem" where
  "ensureDirectory fs p =
     (if lookup fs p \<noteq> None then Inl IOFailure
      else if p \<in> set (dirs fs) then Inr fs
      else Inr (fs\<lparr>dirs := p # dirs fs\<rparr>))"

text \<open>
  \<^verbatim>\<open>IOUtils.copy\<close> and \<^verbatim>\<open>IOUtils.move\<close> between file paths: rejected when the source is
  no file or the destination is a directory; an existing destination file is replaced.
  The transferred file keeps the record of the source.
\<close>

definition IOUtils_copy :: "filesystem \<Rightarrow> path \<Rightarrow> path \<Rightarrow> error + filesystem" where
  "IOUtils_copy fs src dst =
     (case lookup fs src of
        None \<Rightarrow> Inl IOFailure
      | Some f \<Rightarrow>
          if isDirectory fs dst then Inl IOFailure
          else Inr (fs\<lparr>files := AList.update dst f (files fs)\<rparr>))"

definition IOUtils_move :: "filesystem \<Rightarrow> path \<Rightarrow> path \<Rightarrow> error + filesystem" where
  "IOUtils_move fs src dst =
     (case lookup fs src of
        None \<Rightarrow> Inl IOFailure
      | Some f \<Rightarrow>
          if isDirectory fs dst then Inl IOFailure
          else Inr (fs\<lparr>files := AList.update dst f (AList.delete src (files fs))\<rparr>))"

text \<open>
  \<^verbatim>\<open>removeFile\<close>: \<^verbatim>\<open>IOUtils.remove\<close> with \<^verbatim>\<open>ignoreAbsent\<close> deletes a file or an empty
  directory; its rejection on a directory with entries is caught and only logged.
\<close>

definition removeFile :: "filesystem \<Rightarrow> path \<Rightarrow> filesystem" where
  "removeFile fs p =
     (if lookup fs p \<noteq> None then fs\<lparr>files := AList.delete p (files fs)\<rparr>
      else if \<exists>q \<in> set (all_paths fs). under p q then fs
      else fs\<lparr>dirs := removeAll p (dirs fs)\<rparr>)"

subsection \<open>Collision-safe copy and move\<close>

definition MAX_RENAME_COUNTER :: nat where
  "MAX_RENAME_COUNTER = 999"

definition candidate :: "path \<Rightarrow> nat \<Rightarrow> path" where
  "candidate destPath counter =
     (let ext = getFileExtension destPath;
          base = take (length destPath - length ext - 1) destPath
      in base @ ''_'' @ string_of_nat counter @ ''.'' @ ext)"

text \<open>
  The \<^verbatim>\<open>while\<close> loop shared by \<^verbatim>\<open>copyFile\<close> and \<^verbatim>\<open>moveFile\<close>: \<open>finalPath\<close> and
  \<open>counter\<close> are its two variables, the file system is only read.
\<close>

function rename_loop :: "filesystem \<Rightarrow> path \<Rightarrow> path \<Rightarrow> nat \<Rightarrow> error + path" where
  "rename_loop fs destPath finalPath counter =
     (if fileExists fs finalPath then
        (let finalPath' = candidate destPath counter;
             counter' = counter + 1
         in if counter' > MAX_RENAME_COUNTER then Inl TooManyFiles
            else rename_loop fs destPath finalPath' counter')
      else Inr finalPath)"
  by pat_completeness auto
termination
  by (relation "measure (\<lambda>(fs, d, f, c). Suc MAX_RENAME_COUNTER - c)") auto

declare rename_loop.simps [simp del]

definition copyFile :: "filesystem \<Rightarrow> path \<Rightarrow> path \<Rightarrow> bool \<Rightarrow> (error + path) \<times> filesystem" where
  "copyFile fs sourcePath destPath overwrite =
     (case ensureDirectory fs (getParentDir destPath) of
        Inl e \<Rightarrow> (Inl e, fs)
      | Inr fs1 \<Rightarrow>
          if overwrite then
            (let fs2 = (if fileExists fs1 destPath then removeFile fs1 destPath else fs1)
             in case IOUtils_copy fs2 sourcePath destPath of
                  Inl e \<Rightarrow> (Inl e, fs2)
                | Inr fs3 \<Rightarrow> (Inr destPath, fs3))
          else
            (case rename_loop fs1 destPath destPath 2 of
               Inl e \<Rightarrow> (Inl e, fs1)
             | Inr finalPath \<Rightarrow>
                 (case IOUtils_copy fs1 sourcePath finalPath of
                    Inl e \<Rightarrow> (Inl e, fs1)
                  | Inr fs2 \<Rightarrow> (Inr finalPath, fs2))))"

definition moveFile :: "filesystem \<Rightarrow> path \<Rightarrow> path \<Rightarrow> (error + path) \<times> filesystem" where
  "moveFile fs sourcePath destPath =
     (case ensureDirectory fs (getParentDir destPath) of
        Inl e \<Rightarrow> (Inl e, fs)
      | Inr fs1 \<Rightarrow>
          (case rename_loop fs1 destPath destPath 2 of
             Inl e \<Rightarrow> (Inl e, fs1)
           | Inr finalPath \<Rightarrow>
               (case IOUtils_move fs1 sourcePath finalPath of
                  Inl e \<Rightarrow> (Inl e, fs1)
                | Inr fs2 \<Rightarrow> (Inr finalPath, fs2))))"


section \<open>Strings as JavaScript handles them\<close>

fun find_first :: "string \<Rightarrow> string \<Rightarrow> (string \<times> string) option" where
  "find_first pat [] = (if pat = [] then Some ([], []) else None)"
| "find_first pat (c # r) =
     (if prefix pat (c # r) then Some ([], drop (length pat) (c # r))
      else map_option (\<lambda>(b, a). (c # b, a)) (find_first pat r))"

text \<open>
  The replacement text of \<^verbatim>\<open>String.prototype.replace\<close> is a template: \<^verbatim>\<open>$$\<close> stands
  for a dollar sign, \<^verbatim>\<open>$&\<close> for the match, \<^verbatim>\<open>$`\<close> and \<^verbatim>\<open>$'\<close> for the text before
  and after it. A string pattern has no groups, so any other \<^verbatim>\<open>$\<close> is literal.
\<close>

fun expand_template :: "string \<Rightarrow> string \<Rightarrow> string \<Rightarrow> string \<Rightarrow> string" where
  "expand_template [] m b a = []"
| "expand_template [c] m b a = [c]"
| "expand_template (c # d # r) m b a =
     (if c = CHR ''$'' then
        (if d = CHR ''$'' then CHR ''$'' # expand_template r m b a
         else if d = CHR ''&'' then m @ expand_template r m b a
         else if d = CHR 0x60 then b @ expand_template r m b a
         else if d = CHR 0x27 then a @ expand_template r m b a
         else c # expand_template (d # r) m b a)
      else c # expand_template (d # r) m b a)"

text \<open>\<^verbatim>\<open>subject.replace(pattern, replacement)\<close> with a string pattern: the first match only.\<close>

definition js_replace :: "string \<Rightarrow> string \<Rightarrow> string \<Rightarrow> string" where
  "js_replace subject pat rep =
     (case find_first pat subject of
        None \<Rightarrow> subject
      | Some (b, a) \<Rightarrow> b @ expand_template rep pat b a @ a)"

text \<open>\<^verbatim>\<open>s.replace(/[\/\\]+$/, '')\<close>: trailing slashes and backslashes are cut off.\<close>

definition strip_trailing_sep :: "string \<Rightarrow> string" where
  "strip_trailing_sep s = rev (dropWhile (\<lambda>c. c = CHR ''/'' \<or> c = CHR 0x5C) (rev s))"

section \<open>Items, tags and the sync record\<close>

text \<open>
  What a field of the parsed record can hold, as far as the code looks at it: its
  truthiness, and whether it is a string. \<open>Obj\<close> stands for any array or object.
\<close>

datatype jsval = Undefined | Null | Bool bool | Num int | Str string | Obj

fun truthy :: "jsval \<Rightarrow> bool" where
  "truthy Undefined = False"
| "truthy Null = False"
| "truthy (Bool b) = b"
| "truthy (Num n) = (n \<noteq> 0)"
| "truthy (Str s) = (s \<noteq> [])"
| "truthy Obj = True"

text \<open>
  The sync record \<^verbatim>\<open>{ location, lastmod, mode, projectFolder }\<close>. \<open>lastmod\<close> and \<open>mode\<close>
  are numbers when present, as \<^verbatim>\<open>setTabletInfo\<close>, their only writer, stores them.
\<close>

record tablet_info =
  location :: jsval
  lastmod :: "int option"
  mode :: "int option"
  projectFolder :: string

text \<open>
  What \<^verbatim>\<open>JSON.parse\<close> makes of the \<^verbatim>\<open>data-zottablet\<close> attribute: it throws
  (\<open>Unparsable\<close>), or yields \<^verbatim>\<open>null\<close>, a value that is no record (a number, string,
  boolean or array, of which only the truthiness matters), or a record.
\<close>

datatype parsed = PNull | POther bool | PRecord tablet_info

datatype blob = Unparsable | Parsed parsed

text \<open>\<open>NoData\<close>: the attribute is missing or empty.\<close>

datatype data_attr = NoData | Data blob

text \<open>
  The attachment note as the DOM parser presents it: the element \<^verbatim>\<open>#zottablet-data\<close>,
  if there is one, and the rest of the markup.
\<close>

record note_doc =
  rest :: string
  data_el :: "data_attr option"

definition note_is_empty :: "note_doc \<Rightarrow> bool" where
  "note_is_empty n \<longleftrightarrow> rest n = [] \<and> data_el n = None"

record attachment =
  tags :: "string set"
  anote :: note_doc
  parentItemID :: "nat option"
  filePath :: "path option"          \<comment> \<open>\<^verbatim>\<open>getFilePathAsync()\<close>; \<open>None\<close> for \<^verbatim>\<open>false\<close>\<close>
  attachmentKey :: string
  attachmentFilename :: string
  isChildAttachment :: bool          \<comment> \<open>\<^verbatim>\<open>isAttachment() && !isTopLevelItem()\<close>\<close>

record parent_item =
  ptags :: "string set"
  children :: "nat list"             \<comment> \<open>\<^verbatim>\<open>getAttachments()\<close>\<close>

text \<open>
  The state the sync engine works on. An attachment is known by its id; its parent, a
  regular item, is looked up by \<^verbatim>\<open>Zotero.Items.get\<close> and may be missing.
\<close>

record world =
  w_fs :: filesystem
  w_atts :: "nat \<Rightarrow> attachment"
  w_parents :: "nat \<Rightarrow> parent_item option"

record prefs =
  destDir :: string
  syncMode :: int
  rename :: bool
  subfolder :: bool
  subfolderFormat :: string
  tagOnTablet :: string
  tagModified :: string
  storageDir :: path                 \<comment> \<open>\<^verbatim>\<open>Zotero.getStorageDirectory().path\<close>\<close>

definition MODE_BACKGROUND :: int where "MODE_BACKGROUND = 1"
definition MODE_FOREGROUND :: int where "MODE_FOREGROUND = 2"

definition tag_onTablet :: "prefs \<Rightarrow> string" where
  "tag_onTablet pr = (if tagOnTablet pr \<noteq> [] then tagOnTablet pr else ''_tablet'')"

definition tag_modified :: "prefs \<Rightarrow> string" where
  "tag_modified pr = (if tagModified pr \<noteq> [] then tagModified pr else ''_tablet_modified'')"

definition hasTag :: "world \<Rightarrow> nat \<Rightarrow> string \<Rightarrow> bool" where
  "hasTag w a t \<longleftrightarrow> t \<in> tags (w_atts w a)"

definition upd_att :: "world \<Rightarrow> nat \<Rightarrow> (attachment \<Rightarrow> attachment) \<Rightarrow> world" where
  "upd_att w a f = w\<lparr>w_atts := (w_atts w)(a := f (w_atts w a))\<rparr>"

definition upd_parent :: "world \<Rightarrow> nat \<Rightarrow> (parent_item \<Rightarrow> parent_item) \<Rightarrow> world" where
  "upd_parent w p f = w\<lparr>w_parents := (w_parents w)(p := map_option f (w_parents w p))\<rparr>"

definition get_parent :: "world \<Rightarrow> nat \<Rightarrow> (nat \<times> parent_item) option" where
  "get_parent w a =
     (case parentItemID (w_atts w a) of
        None \<Rightarrow> None
      | Some p \<Rightarrow> map_option (\<lambda>it. (p, it)) (w_parents w p))"

text \<open>\<^verbatim>\<open>siblings.some(att => att.id !== attachment.id && att.hasTag(t))\<close>\<close>

definition sibling_has :: "world \<Rightarrow> parent_item \<Rightarrow> nat \<Rightarrow> string \<Rightarrow> bool" where
  "sibling_has w par a t \<longleftrightarrow> (\<exists>s \<in> set (children par). s \<noteq> a \<and> hasTag w s t)"

text \<open>
  \<^verbatim>\<open>addTabletTag\<close>. The tags live on the item objects; \<^verbatim>\<open>saveTx\<close> only persists them
  and is not part of the state.
\<close>

definition addTabletTag :: "prefs \<Rightarrow> world \<Rightarrow> nat \<Rightarrow> string \<Rightarrow> world" where
  "addTabletTag pr w a tag =
     (let otherTag = (if tag = tag_onTablet pr then tag_modified pr else tag_onTablet pr);
          w1 = upd_att w a (\<lambda>x. x\<lparr>tags := insert tag (tags x)\<rparr>);
          w2 = upd_att w1 a (\<lambda>x. x\<lparr>tags := tags x - {otherTag}\<rparr>)
      in case get_parent w2 a of
           None \<Rightarrow> w2
         | Some (p, par) \<Rightarrow>
             (let w3 = upd_parent w2 p (\<lambda>x. x\<lparr>ptags := insert tag (ptags x)\<rparr>)
              in if \<not> sibling_has w3 par a otherTag
                 then upd_parent w3 p (\<lambda>x. x\<lparr>ptags := ptags x - {otherTag}\<rparr>)
                 else w3))"

definition removeTabletTag :: "world \<Rightarrow> nat \<Rightarrow> string \<Rightarrow> world" where
  "removeTabletTag w a tag =
     (let w1 = upd_att w a (\<lambda>x. x\<lparr>tags := tags x - {tag}\<rparr>)
      in case get_parent w1 a of
           None \<Rightarrow> w1
         | Some (p, par) \<Rightarrow>
             if tag \<in> ptags par then
               (if \<not> sibling_has w1 par a tag
                then upd_parent w1 p (\<lambda>x. x\<lparr>ptags := ptags x - {tag}\<rparr>)
                else w1)
             else w1)"

subsection \<open>The sync record in the attachment note\<close>

text \<open>
  \<^verbatim>\<open>setTabletInfo\<close> finds or creates the data element and stores
  \<^verbatim>\<open>JSON.stringify(info)\<close> in its attribute; parsing that text gives the record back.
\<close>

definition setTabletInfo :: "world \<Rightarrow> nat \<Rightarrow> tablet_info \<Rightarrow> world" where
  "setTabletInfo w a info =
     upd_att w a (\<lambda>x. x\<lparr>anote := (anote x)\<lparr>data_el := Some (Data (Parsed (PRecord info)))\<rparr>\<rparr>)"

text \<open>
  The body of the \<^verbatim>\<open>try\<close> in \<^verbatim>\<open>getTabletInfo\<close>: \<open>Inl\<close> is a throw, \<open>Inr None\<close> leaves
  the block without \<^verbatim>\<open>return\<close>, \<open>Inr (Some v)\<close> is \<^verbatim>\<open>return info\<close>.
\<close>

definition getTabletInfo_try :: "prefs \<Rightarrow> note_doc \<Rightarrow> error + parsed option" where
  "getTabletInfo_try pr n =
     (case data_el n of
        None \<Rightarrow> Inr None
      | Some NoData \<Rightarrow> Inr None
      | Some (Data Unparsable) \<Rightarrow> Inl JSONSyntaxError
      | Some (Data (Parsed PNull)) \<Rightarrow> Inl JSTypeError
      | Some (Data (Parsed (POther b))) \<Rightarrow> Inr (Some (POther b))
      | Some (Data (Parsed (PRecord info))) \<Rightarrow>
          if truthy (location info) then
            (case location info of
               Str s \<Rightarrow>
                 Inr (Some (PRecord (info\<lparr>location :=
                   Str (js_replace s ''[BaseFolder]'' (strip_trailing_sep (destDir pr)))\<rparr>)))
             | _ \<Rightarrow> Inl JSTypeError)
          else Inr (Some (PRecord info)))"

definition getTabletInfo :: "prefs \<Rightarrow> world \<Rightarrow> nat \<Rightarrow> parsed" where
  "getTabletInfo pr w a =
     (let n = anote (w_atts w a)
      in if note_is_empty n then PNull
         else case getTabletInfo_try pr n of
                Inl e \<Rightarrow> PNull
              | Inr None \<Rightarrow> PNull
              | Inr (Some v) \<Rightarrow> v)"

definition clearTabletInfo :: "world \<Rightarrow> nat \<Rightarrow> world" where
  "clearTabletInfo w a =
     (let n = anote (w_atts w a)
      in if note_is_empty n then w
         else if data_el n \<noteq> None then upd_att w a (\<lambda>x. x\<lparr>anote := (anote x)\<lparr>data_el := None\<rparr>\<rparr>)
         else w)"

subsection \<open>Status checks\<close>

definition isOnTablet :: "prefs \<Rightarrow> world \<Rightarrow> nat \<Rightarrow> bool" where
  "isOnTablet pr w a \<longleftrightarrow> hasTag w a (tag_onTablet pr) \<or> hasTag w a (tag_modified pr)"

text \<open>\<^verbatim>\<open>!info\<close> and the property reads \<^verbatim>\<open>info.location\<close>, \<^verbatim>\<open>info.lastmod\<close>, \<^verbatim>\<open>info.mode\<close>.\<close>

fun info_falsy :: "parsed \<Rightarrow> bool" where
  "info_falsy PNull = True"
| "info_falsy (POther b) = (\<not> b)"
| "info_falsy (PRecord r) = False"

fun info_location :: "parsed \<Rightarrow> jsval" where
  "info_location (PRecord r) = location r"
| "info_location _ = Undefined"

fun info_lastmod :: "parsed \<Rightarrow> int option" where
  "info_lastmod (PRecord r) = lastmod r"
| "info_lastmod _ = None"

fun info_mode :: "parsed \<Rightarrow> int option" where
  "info_mode (PRecord r) = mode r"
| "info_mode _ = None"

text \<open>
  \<^verbatim>\<open>isModified\<close>. Comparing with a missing \<^verbatim>\<open>lastmod\<close> compares with \<^verbatim>\<open>NaN\<close> and is
  false. A truthy location that is no string cannot come out of \<^verbatim>\<open>getTabletInfo\<close>;
  \<^verbatim>\<open>IOUtils.exists\<close> would reject it.
\<close>

definition isModified :: "prefs \<Rightarrow> world \<Rightarrow> nat \<Rightarrow> error + bool" where
  "isModified pr w a =
     (if \<not> isOnTablet pr w a then Inr False
      else let info = getTabletInfo pr w a
           in if info_falsy info \<or> \<not> truthy (info_location info) then Inr False
              else case info_location info of
                     Str loc \<Rightarrow>
                       if \<not> fileExists (w_fs w) loc then Inr False
                       else (case info_lastmod info of
                               None \<Rightarrow> Inr False
                             | Some t \<Rightarrow> Inr (getFileModTime (w_fs w) loc > t))
                   | _ \<Rightarrow> Inl JSTypeError)"

definition getTabletFilePath :: "prefs \<Rightarrow> world \<Rightarrow> nat \<Rightarrow> error + path option" where
  "getTabletFilePath pr w a =
     (let info = getTabletInfo pr w a
      in if info_falsy info then Inr None
         else if info_mode info = Some MODE_FOREGROUND then Inr (filePath (w_atts w a))
         else if truthy (info_location info) then
           (case info_location info of
              Str loc \<Rightarrow> if fileExists (w_fs w) loc then Inr (Some loc) else Inr None
            | _ \<Rightarrow> Inl JSTypeError)
         else Inr None)"

section \<open>The batch executor\<close>

text \<open>
  A call of the processor on one item settles: it is rejected with an error (\<open>Inl\<close>) or
  fulfilled with an object (\<open>Inr\<close>). The wrapper spreads that object over its own
  \<^verbatim>\<open>{ success: true, item }\<close>, so a \<^verbatim>\<open>success\<close> or an \<^verbatim>\<open>item\<close> key of the result
  replaces the wrapper's; every other key the result carries, the documented
  \<^verbatim>\<open>data\<close>, \<^verbatim>\<open>error\<close> and \<^verbatim>\<open>filename\<close> among them, is \<open>r_data\<close>.
\<close>

record ('a, 'd) proc_result =
  r_success :: "bool option"      \<comment> \<open>the truthiness of the result's \<^verbatim>\<open>success\<close> key, if it has one\<close>
  r_item :: "'a option"           \<comment> \<open>the result's \<^verbatim>\<open>item\<close> key, if it has one\<close>
  r_data :: 'd

text \<open>
  An entry of the result lists. \<open>e_error\<close> and \<open>e_filename\<close> are the keys that the
  \<^verbatim>\<open>catch\<close> branch writes.
\<close>

record ('a, 'd) batch_entry =
  e_success :: bool
  e_item :: 'a
  e_data :: "'d option"
  e_error :: "error option"
  e_filename :: "string option"

record ('a, 'd) batch_acc =
  successes :: "('a, 'd) batch_entry list"
  errors :: "('a, 'd) batch_entry list"
  completed :: nat
  progress :: "(nat \<times> nat) list"     \<comment> \<open>the calls \<^verbatim>\<open>onProgress(completed, items.length)\<close>\<close>

definition CONCURRENCY :: int where
  "CONCURRENCY = 3"

text \<open>\<^verbatim>\<open>item.attachmentFilename || item.name || 'unknown'\<close>, from the item's two names.\<close>

definition item_label :: "string \<times> string \<Rightarrow> string" where
  "item_label nm =
     (if fst nm \<noteq> [] then fst nm else if snd nm \<noteq> [] then snd nm else ''unknown'')"

text \<open>
  The body of the \<^verbatim>\<open>async (item) => { try ... catch ... }\<close> wrapper, given how
  \<^verbatim>\<open>processor(item)\<close> settled. \<open>names\<close> reads the item's \<^verbatim>\<open>attachmentFilename\<close> and
  \<^verbatim>\<open>name\<close> (empty for a missing one); it is \<open>None\<close> for an item that is \<^verbatim>\<open>null\<close> or
  \<^verbatim>\<open>undefined\<close>, where the read throws inside the \<^verbatim>\<open>catch\<close> block and the wrapper
  is rejected.
\<close>

definition run_one ::
  "('a \<Rightarrow> (string \<times> string) option) \<Rightarrow> 'a \<Rightarrow> error + ('a, 'd) proc_result
     \<Rightarrow> error + ('a, 'd) batch_entry" where
  "run_one names x settled =
     (case settled of
        Inr r \<Rightarrow>
          Inr \<lparr>e_success = (case r_success r of None \<Rightarrow> True | Some b \<Rightarrow> b),
               e_item = (case r_item r of None \<Rightarrow> x | Some y \<Rightarrow> y),
               e_data = Some (r_data r), e_error = None, e_filename = None\<rparr>
      | Inl e \<Rightarrow>
          (case names x of
             None \<Rightarrow> Inl JSTypeError
           | Some nm \<Rightarrow>
               Inr \<lparr>e_success = False, e_item = x, e_data = None, e_error = Some e,
                    e_filename = Some (item_label nm)\<rparr>))"

text \<open>
  \<^verbatim>\<open>Promise.all\<close>: the values in list order when every promise is fulfilled, a
  rejection as soon as one is rejected.
\<close>

fun promise_all :: "(error + 'b) list \<Rightarrow> error + 'b list" where
  "promise_all [] = Inr []"
| "promise_all (Inl e # rs) = Inl e"
| "promise_all (Inr v # rs) = (case promise_all rs of Inl e \<Rightarrow> Inl e | Inr vs \<Rightarrow> Inr (v # vs))"

text \<open>
  The executor starts the processor on all items of a window at once. What the calls do
  to the state, and how their steps interleave between two \<^verbatim>\<open>await\<close>s, is decided by
  the processor and the host, not by the executor. The processor is therefore taken as
  the function that tells, for the items started together on a state, how each call
  settles (one settlement per item, in list order) and which state is left when all
  have settled. Every call is taken to settle.
\<close>

type_synonym ('a, 'd, 's) processor =
  "'a list \<Rightarrow> 's \<Rightarrow> (error + ('a, 'd) proc_result) list \<times> 's"

text \<open>
  The processors of the sync engine are given as functions of one item and the state.
  Their calls in a window are taken to run one after another in list order, each on the
  state that the one before it left.
\<close>

fun in_turn ::
  "('a \<Rightarrow> 's \<Rightarrow> (error + ('a, 'd) proc_result) \<times> 's) \<Rightarrow> ('a, 'd, 's) processor" where
  "in_turn f [] st = ([], st)"
| "in_turn f (x # xs) st =
     (case f x st of
        (r, st1) \<Rightarrow> (case in_turn f xs st1 of (rs, st2) \<Rightarrow> (r # rs, st2)))"

text \<open>\<^verbatim>\<open>await Promise.all(chunk.map(...))\<close>\<close>

definition run_chunk ::
  "('a \<Rightarrow> (string \<times> string) option) \<Rightarrow> ('a, 'd, 's) processor \<Rightarrow> 'a list \<Rightarrow> 's
     \<Rightarrow> (error + ('a, 'd) batch_entry list) \<times> 's" where
  "run_chunk names processor chunk st =
     (case processor chunk st of
        (settled, st') \<Rightarrow>
          (promise_all (map (\<lambda>(x, r). run_one names x r) (zip chunk settled)), st'))"

text \<open>
  The inner \<^verbatim>\<open>for (const result of results)\<close> loop. The callback returns (\<open>None\<close>) or
  throws; a throw ends the loop and rejects the call.
\<close>

fun absorb ::
  "(nat \<Rightarrow> nat \<Rightarrow> error option) \<Rightarrow> nat \<Rightarrow> ('a, 'd) batch_entry list \<Rightarrow> ('a, 'd) batch_acc
     \<Rightarrow> error + ('a, 'd) batch_acc" where
  "absorb onProgress n [] acc = Inr acc"
| "absorb onProgress n (r # rs) acc =
     (case onProgress (completed acc + 1) n of
        Some e \<Rightarrow> Inl e
      | None \<Rightarrow>
          absorb onProgress n rs
            \<lparr>successes = (if e_success r then successes acc @ [r] else successes acc),
             errors = (if e_success r then errors acc else errors acc @ [r]),
             completed = completed acc + 1,
             progress = progress acc @ [(completed acc + 1, n)]\<rparr>)"

text \<open>\<^verbatim>\<open>Array.prototype.slice(start, end)\<close>; negative positions count from the end.\<close>

definition js_slice :: "'a list \<Rightarrow> int \<Rightarrow> int \<Rightarrow> 'a list" where
  "js_slice xs s e =
     (let n = int (length xs);
          lo = (if s < 0 then max (n + s) 0 else min s n);
          hi = (if e < 0 then max (n + e) 0 else min e n)
      in take (nat (hi - lo)) (drop (nat lo) xs))"

text \<open>
  The outer \<^verbatim>\<open>for (let i = 0; i < items.length; i += concurrency)\<close> loop. With a
  negative step it never ends, hence the result is optional. The call is rejected
  (\<open>Inl\<close>) when a wrapper is rejected or the callback throws; the state is then the one
  that the window just run has left.
\<close>

partial_function (option) batch_loop ::
  "('a \<Rightarrow> (string \<times> string) option) \<Rightarrow> ('a, 'd, 's) processor \<Rightarrow> (nat \<Rightarrow> nat \<Rightarrow> error option)
     \<Rightarrow> int \<Rightarrow> 'a list \<Rightarrow> int \<Rightarrow> ('a, 'd) batch_acc \<Rightarrow> 's
     \<Rightarrow> ((error + ('a, 'd) batch_acc) \<times> 's) option" where
  "batch_loop names processor onProgress concurrency items i acc st =
     (if i < int (length items) then
        (case run_chunk names processor (js_slice items i (i + concurrency)) st of
           (Inl e, st') \<Rightarrow> Some (Inl e, st')
         | (Inr results, st') \<Rightarrow>
             (case absorb onProgress (length items) results acc of
                Inl e \<Rightarrow> Some (Inl e, st')
              | Inr acc' \<Rightarrow>
                  batch_loop names processor onProgress concurrency items (i + concurrency)
                    acc' st'))
      else Some (Inr acc, st))"

text \<open>\<^verbatim>\<open>options.concurrency || Constants.LIMITS.CONCURRENCY\<close>\<close>

definition effective_concurrency :: "int option \<Rightarrow> int" where
  "effective_concurrency c =
     (case c of None \<Rightarrow> CONCURRENCY | Some k \<Rightarrow> if k = 0 then CONCURRENCY else k)"

text \<open>\<^verbatim>\<open>options.onProgress || (() => {})\<close>\<close>

definition effective_onProgress ::
  "(nat \<Rightarrow> nat \<Rightarrow> error option) option \<Rightarrow> nat \<Rightarrow> nat \<Rightarrow> error option" where
  "effective_onProgress f = (case f of None \<Rightarrow> (\<lambda>k n. None) | Some g \<Rightarrow> g)"

definition processInBatches ::
  "('a \<Rightarrow> (string \<times> string) option) \<Rightarrow> 'a list \<Rightarrow> ('a, 'd, 's) processor \<Rightarrow> int option
     \<Rightarrow> (nat \<Rightarrow> nat \<Rightarrow> error option) option \<Rightarrow> 's
     \<Rightarrow> ((error + ('a, 'd) batch_acc) \<times> 's) option" where
  "processInBatches names items processor concurrency onProgress st =
     batch_loop names processor (effective_onProgress onProgress)
       (effective_concurrency concurrency) items 0
       \<lparr>successes = [], errors = [], completed = 0, progress = []\<rparr> st"

text \<open>
  The progress callbacks of the sync engine only change the headline of the progress
  window; they return.
\<close>

definition changeHeadline :: "nat \<Rightarrow> nat \<Rightarrow> error option" where
  "changeHeadline k n = None"

section \<open>Directory cleanup\<close>

definition hidden :: "string \<Rightarrow> bool" where
  "hidden name \<longleftrightarrow> name \<noteq> [] \<and> hd name = CHR ''.''"

definition child_name :: "path \<Rightarrow> path \<Rightarrow> string" where
  "child_name d p = takeWhile (\<lambda>c. c \<noteq> CHR ''/'') (drop (length (dir_prefix d)) p)"

definition has_visible_entry :: "filesystem \<Rightarrow> path \<Rightarrow> bool" where
  "has_visible_entry fs d \<longleftrightarrow>
     (\<exists>p \<in> set (all_paths fs). under d p \<and> \<not> hidden (child_name d p))"

text \<open>\<^verbatim>\<open>dirFile.remove(true)\<close>: the directory goes with everything below it.\<close>

definition remove_tree :: "filesystem \<Rightarrow> path \<Rightarrow> filesystem" where
  "remove_tree fs d =
     fs\<lparr>files := filter (\<lambda>(p, f). \<not> under d p) (files fs),
        dirs := filter (\<lambda>p. p \<noteq> d \<and> \<not> under d p) (dirs fs)\<rparr>"

text \<open>
  \<^verbatim>\<open>removeEmptyDirs\<close>: a directory without a visible entry is removed, then its parent
  is tried, up to \<open>basePath\<close>. Errors are swallowed by the source. An entry counts as
  hidden (\<^verbatim>\<open>isHidden()\<close>) when its name starts with a dot.
\<close>

function removeEmptyDirs :: "filesystem \<Rightarrow> path \<Rightarrow> path \<Rightarrow> filesystem" where
  "removeEmptyDirs fs dirPath basePath =
     (if dirPath = [] \<or> dirPath = basePath then fs
      else if \<not> isDirectory fs dirPath then fs
      else if has_visible_entry fs dirPath then fs
      else (let fs' = remove_tree fs dirPath;
                parentPath = getParentDir dirPath
            in if parentPath \<noteq> basePath then removeEmptyDirs fs' parentPath basePath else fs'))"
  by pat_completeness auto
termination
proof (relation "measure (\<lambda>(fs, d, b). length d)")
  show "wf (measure (\<lambda>(fs, d, b). length d))" by simp
next
  fix fs :: filesystem and dirPath basePath :: path and x xa
  assume ne: "\<not> (dirPath = [] \<or> dirPath = basePath)" and xa: "xa = getParentDir dirPath"
  define q where "q = rev (dropWhile (\<lambda>c. c \<noteq> CHR ''/'') (rev dirPath))"
  have gp: "getParentDir dirPath =
              (if q = [] then [] else if q = ''/'' then (if dirPath = ''/'' then [] else ''/'')
               else butlast q)"
    unfolding getParentDir_def Let_def q_def ..
  have le: "length q \<le> length dirPath"
    unfolding q_def using length_dropWhile_le [of "\<lambda>c. c \<noteq> CHR ''/''" "rev dirPath"] by simp
  have "dirPath = q @ rev (takeWhile (\<lambda>c. c \<noteq> CHR ''/'') (rev dirPath))"
    unfolding q_def by (metis rev_append rev_rev_ident takeWhile_dropWhile_id)
  then obtain r where r: "dirPath = q @ r" ..
  have "length (getParentDir dirPath) < length dirPath"
  proof (cases "q = []")
    case True
    then show ?thesis using ne gp by simp
  next
    case False
    show ?thesis
    proof (cases "q = ''/''")
      case True
      then show ?thesis using gp r by (cases r) auto
    next
      case F2: False
      have "length (butlast q) < length dirPath" using le False by (cases q) auto
      then show ?thesis using gp False F2 by simp
    qed
  qed
  then show "((x, xa, basePath), fs, dirPath, basePath) \<in> measure (\<lambda>(fs, d, b). length d)"
    by (simp add: xa)
qed

declare removeEmptyDirs.simps [simp del]

section \<open>Send to tablet\<close>

text \<open>
  \<^verbatim>\<open>_formatFilename\<close> and \<^verbatim>\<open>_formatSubfolder\<close> render names from the parent's
  metadata. They are parameters here: nothing below depends on what they return.
\<close>

record renderer =
  formatFilename :: "parent_item \<Rightarrow> string \<Rightarrow> string"
  formatSubfolder :: "parent_item \<Rightarrow> string \<Rightarrow> string"

record send_result =
  sr_attachment :: nat
  sr_finalPath :: path
  sr_modTime :: int
  sr_filename :: string

text \<open>\<^verbatim>\<open>ZT.getPref('mode') || this.MODE_BACKGROUND\<close>\<close>

definition effective_mode :: "prefs \<Rightarrow> int" where
  "effective_mode pr = (if syncMode pr \<noteq> 0 then syncMode pr else MODE_BACKGROUND)"

definition relinkAttachmentFile :: "world \<Rightarrow> nat \<Rightarrow> path \<Rightarrow> world" where
  "relinkAttachmentFile w a p = upd_att w a (\<lambda>x. x\<lparr>filePath := Some p\<rparr>)"

definition send_processFile ::
  "renderer \<Rightarrow> prefs \<Rightarrow> string \<Rightarrow> nat \<Rightarrow> world \<Rightarrow> (error + (nat, send_result) proc_result) \<times> world" where
  "send_processFile rd pr projFolder a w =
     (case filePath (w_atts w a) of
        None \<Rightarrow> (Inl SourceNotFound, w)
      | Some sourcePath \<Rightarrow>
          if sourcePath = [] \<or> \<not> fileExists (w_fs w) sourcePath then (Inl SourceNotFound, w)
          else
            (let parent = get_parent w a;
                 filename0 = attachmentFilename (w_atts w a);
                 filename = (case parent of
                               Some (p, par) \<Rightarrow>
                                 if rename pr then formatFilename rd par filename0 else filename0
                             | None \<Rightarrow> filename0);
                 targetDir0 = (if projFolder \<noteq> [] then joinPath [destDir pr, projFolder]
                               else destDir pr);
                 targetDir = (case parent of
                                Some (p, par) \<Rightarrow>
                                  if subfolder pr
                                  then joinPath [targetDir0, formatSubfolder rd par (subfolderFormat pr)]
                                  else targetDir0
                              | None \<Rightarrow> targetDir0);
                 targetPath = joinPath [targetDir, filename]
             in case ensureDirectory (w_fs w) targetDir of
                  Inl e \<Rightarrow> (Inl e, w)
                | Inr fs1 \<Rightarrow>
                    if effective_mode pr = MODE_BACKGROUND then
                      (case copyFile fs1 sourcePath targetPath False of
                         (Inl e, fs2) \<Rightarrow> (Inl e, w\<lparr>w_fs := fs2\<rparr>)
                       | (Inr finalPath, fs2) \<Rightarrow>
                           (Inr \<lparr>r_success = None, r_item = None,
                                 r_data = \<lparr>sr_attachment = a, sr_finalPath = finalPath,
                                           sr_modTime = getFileModTime fs2 finalPath,
                                           sr_filename = filename\<rparr>\<rparr>,
                            w\<lparr>w_fs := fs2\<rparr>))
                    else
                      (case moveFile fs1 sourcePath targetPath of
                         (Inl e, fs2) \<Rightarrow> (Inl e, w\<lparr>w_fs := fs2\<rparr>)
                       | (Inr finalPath, fs2) \<Rightarrow>
                           (Inr \<lparr>r_success = None, r_item = None,
                                 r_data = \<lparr>sr_attachment = a, sr_finalPath = finalPath,
                                           sr_modTime = getFileModTime fs2 finalPath,
                                           sr_filename = filename\<rparr>\<rparr>,
                            relinkAttachmentFile (w\<lparr>w_fs := fs2\<rparr>) a finalPath))))"

text \<open>\<^verbatim>\<open>result.finalPath.replace(prefs.destDir, '[BaseFolder]')\<close>\<close>

definition stored_location :: "prefs \<Rightarrow> path \<Rightarrow> string" where
  "stored_location pr finalPath = js_replace finalPath (destDir pr) ''[BaseFolder]''"

text \<open>The sequential pass over the successes: record first, then the tag.\<close>

fun send_db :: "prefs \<Rightarrow> string \<Rightarrow> (nat, send_result) batch_entry list \<Rightarrow> world \<Rightarrow> world" where
  "send_db pr projFolder [] w = w"
| "send_db pr projFolder (r # rs) w =
     (case e_data r of
        None \<Rightarrow> send_db pr projFolder rs w
      | Some res \<Rightarrow>
          (let w1 = setTabletInfo w (sr_attachment res)
                      \<lparr>location = Str (stored_location pr (sr_finalPath res)),
                       lastmod = Some (sr_modTime res),
                       mode = Some (effective_mode pr),
                       projectFolder = projFolder\<rparr>;
               w2 = addTabletTag pr w1 (sr_attachment res) (tag_onTablet pr)
           in send_db pr projFolder rs w2))"

text \<open>
  The result: the new state, the number of files sent and the number of errors; or, when
  the batch executor is rejected, its error and the state left.
\<close>

definition sendToTablet ::
  "renderer \<Rightarrow> prefs \<Rightarrow> world \<Rightarrow> nat list \<Rightarrow> string \<Rightarrow> (error \<times> world + world \<times> nat \<times> nat) option" where
  "sendToTablet rd pr w attachments projFolder =
     (if destDir pr = [] then Some (Inr (w, 0, 0))
      else
        (let validAttachments = filter (\<lambda>a. isChildAttachment (w_atts w a)) attachments
         in if validAttachments = [] then Some (Inr (w, 0, 0))
            else case processInBatches (\<lambda>a. Some (attachmentFilename (w_atts w a), []))
                        validAttachments (in_turn (send_processFile rd pr projFolder)) (Some 3)
                        (Some changeHeadline) w of
                   None \<Rightarrow> None
                 | Some (Inl e, w1) \<Rightarrow> Some (Inl (e, w1))
                 | Some (Inr acc, w1) \<Rightarrow>
                     Some (Inr (send_db pr projFolder (successes acc) w1,
                                length (successes acc), length (errors acc)))))"

section \<open>Check modifications\<close>

record check_result =
  c_attachment :: nat
  c_isModified :: bool
  c_hasModifiedTag :: bool
  c_needsUpdate :: bool

definition checkMod :: "prefs \<Rightarrow> nat \<Rightarrow> world \<Rightarrow> (error + (nat, check_result) proc_result) \<times> world" where
  "checkMod pr a w =
     (case isModified pr w a of
        Inl e \<Rightarrow> (Inl e, w)
      | Inr m \<Rightarrow>
          (let h = hasTag w a (tag_modified pr)
           in (Inr \<lparr>r_success = None, r_item = None,
                    r_data = \<lparr>c_attachment = a, c_isModified = m, c_hasModifiedTag = h,
                              c_needsUpdate = ((m \<and> \<not> h) \<or> (\<not> m \<and> h))\<rparr>\<rparr>, w)))"

text \<open>
  The sequential pass of \<^verbatim>\<open>checkModifications\<close>. Besides the state and the counter it
  keeps the list of the \<^verbatim>\<open>addTabletTag\<close> calls it made.
\<close>

fun apply_checks ::
  "prefs \<Rightarrow> (nat, check_result) batch_entry list \<Rightarrow> world \<times> nat \<times> (nat \<times> string) list
     \<Rightarrow> world \<times> nat \<times> (nat \<times> string) list" where
  "apply_checks pr [] st = st"
| "apply_checks pr (r # rs) (w, modifiedCount, calls) =
     (case e_data r of
        None \<Rightarrow> apply_checks pr rs (w, modifiedCount, calls)
      | Some res \<Rightarrow>
          if \<not> c_needsUpdate res then apply_checks pr rs (w, modifiedCount, calls)
          else if c_isModified res \<and> \<not> c_hasModifiedTag res then
            apply_checks pr rs
              (addTabletTag pr w (c_attachment res) (tag_modified pr), modifiedCount + 1,
               calls @ [(c_attachment res, tag_modified pr)])
          else if \<not> c_isModified res \<and> c_hasModifiedTag res then
            apply_checks pr rs
              (addTabletTag pr w (c_attachment res) (tag_onTablet pr), modifiedCount,
               calls @ [(c_attachment res, tag_onTablet pr)])
          else apply_checks pr rs (w, modifiedCount, calls))"

text \<open>
  The result: \<^verbatim>\<open>modifiedCount\<close>, the new state, and the tag updates performed; or, when
  the batch executor is rejected, its error and the state left.
\<close>

definition checkModifications ::
  "prefs \<Rightarrow> world \<Rightarrow> nat list \<Rightarrow> (error \<times> world + nat \<times> world \<times> (nat \<times> string) list) option" where
  "checkModifications pr w attachments =
     (let tabletAttachments = filter (isOnTablet pr w) attachments
      in if tabletAttachments = [] then Some (Inr (0, w, []))
         else case processInBatches (\<lambda>a. Some (attachmentFilename (w_atts w a), []))
                     tabletAttachments (in_turn (checkMod pr)) (Some 3) None w of
                None \<Rightarrow> None
              | Some (Inl e, w1) \<Rightarrow> Some (Inl (e, w1))
              | Some (Inr acc, w1) \<Rightarrow>
                  (case apply_checks pr (successes acc) (w1, 0, []) of
                     (w2, modifiedCount, calls) \<Rightarrow> Some (Inr (modifiedCount, w2, calls))))"

section \<open>Get from tablet\<close>

record gathered =
  g_attachment :: nat
  g_info :: parsed
  g_tabletPath :: path
  g_zoteroPath :: "path option"
  g_tabletModified :: bool
  g_zoteroModified :: bool
  g_hasConflict :: bool
  g_useTablet :: "bool option"

text \<open>
  What \<^verbatim>\<open>gatherInfo\<close> returns: \<^verbatim>\<open>{ skip, reason: 'no_info' }\<close>,
  \<^verbatim>\<open>{ skip, reason: 'no_file', attachment, needsCleanup }\<close>, or the gathered facts.
\<close>

datatype gather_result = SkipNoInfo | SkipNoFile nat | Gathered gathered

definition gatherInfo :: "prefs \<Rightarrow> nat \<Rightarrow> world \<Rightarrow> (error + (nat, gather_result) proc_result) \<times> world" where
  "gatherInfo pr a w =
     (let info = getTabletInfo pr w a
      in if info_falsy info then (Inr \<lparr>r_success = None, r_item = None, r_data = SkipNoInfo\<rparr>, w)
         else case getTabletFilePath pr w a of
                Inl e \<Rightarrow> (Inl e, w)
              | Inr None \<Rightarrow> (Inr \<lparr>r_success = None, r_item = None, r_data = SkipNoFile a\<rparr>, w)
              | Inr (Some tabletPath) \<Rightarrow>
                  if tabletPath = [] then (Inr \<lparr>r_success = None, r_item = None, r_data = SkipNoFile a\<rparr>, w)
                  else
                    (let zoteroPath = filePath (w_atts w a);
                         tabletModTime = getFileModTime (w_fs w) tabletPath;
                         zoteroModTime = (case zoteroPath of
                                            None \<Rightarrow> 0
                                          | Some zp \<Rightarrow>
                                              if zp = [] then 0 else getFileModTime (w_fs w) zp);
                         savedModTime = (case info_lastmod info of None \<Rightarrow> 0 | Some t \<Rightarrow> t);
                         tabletModified = (tabletModTime > savedModTime);
                         zoteroModified = (zoteroModTime > savedModTime)
                     in (Inr \<lparr>r_success = None, r_item = None,
                              r_data = Gathered
                                \<lparr>g_attachment = a, g_info = info, g_tabletPath = tabletPath,
                                 g_zoteroPath = zoteroPath, g_tabletModified = tabletModified,
                                 g_zoteroModified = zoteroModified,
                                 g_hasConflict = (tabletModified \<and> zoteroModified),
                                 g_useTablet = None\<rparr>\<rparr>, w)))"

text \<open>The loop that sorts the gathered results into \<open>(toProcess, toCleanup, conflicts)\<close>.\<close>

fun separate ::
  "gather_result list \<Rightarrow> gathered list \<times> nat list \<times> gathered list
     \<Rightarrow> gathered list \<times> nat list \<times> gathered list" where
  "separate [] st = st"
| "separate (SkipNoInfo # rs) st = separate rs st"
| "separate (SkipNoFile a # rs) (toProcess, toCleanup, conflicts) =
     separate rs (toProcess, toCleanup @ [a], conflicts)"
| "separate (Gathered g # rs) (toProcess, toCleanup, conflicts) =
     (if g_hasConflict g then separate rs (toProcess, toCleanup, conflicts @ [g])
      else separate rs (toProcess @ [g], toCleanup, conflicts))"

datatype resolution = UseTablet | UseZotero | Cancel

text \<open>\<^verbatim>\<open>_resolveConflict\<close>, given the button that \<^verbatim>\<open>confirmEx\<close> reports.\<close>

definition resolveConflict :: "int \<Rightarrow> resolution" where
  "resolveConflict button =
     (if button = 0 then UseTablet else if button = 2 then UseZotero else Cancel)"

text \<open>
  The conflict loop. The user is a function from the number of the dialog within the pass
  and the attachment it shows to the button pressed. The loop touches neither the file
  system nor the items. Its state is \<open>toProcess\<close> and, as a record of what happened,
  the attachments for which \<^verbatim>\<open>_resolveConflict\<close> was called, in order.
\<close>

fun resolve_conflicts ::
  "(nat \<Rightarrow> nat \<Rightarrow> int) \<Rightarrow> nat \<Rightarrow> gathered list \<Rightarrow> gathered list \<times> nat list
     \<Rightarrow> gathered list \<times> nat list" where
  "resolve_conflicts user k [] st = st"
| "resolve_conflicts user k (c # cs) (toProcess, asked) =
     (case resolveConflict (user k (g_attachment c)) of
        UseTablet \<Rightarrow>
          resolve_conflicts user (k + 1) cs
            (toProcess @ [c\<lparr>g_useTablet := Some True\<rparr>], asked @ [g_attachment c])
      | UseZotero \<Rightarrow>
          resolve_conflicts user (k + 1) cs
            (toProcess @ [c\<lparr>g_useTablet := Some False\<rparr>], asked @ [g_attachment c])
      | Cancel \<Rightarrow> resolve_conflicts user (k + 1) cs (toProcess, asked @ [g_attachment c]))"

record file_result =
  f_attachment :: nat
  f_shouldExtract :: bool
  f_tabletPath :: "path option"

definition get_processFile ::
  "prefs \<Rightarrow> gathered \<Rightarrow> world \<Rightarrow> (error + (gathered, file_result) proc_result) \<times> world" where
  "get_processFile pr g w =
     (if info_mode (g_info g) = Some MODE_BACKGROUND then
        (if g_tabletModified g \<or> g_useTablet g = Some True then
           (case g_zoteroPath g of
              None \<Rightarrow> (Inl JSTypeError, w)
            | Some zoteroPath \<Rightarrow>
                (case copyFile (w_fs w) (g_tabletPath g) zoteroPath True of
                   (Inl e, fs') \<Rightarrow> (Inl e, w\<lparr>w_fs := fs'\<rparr>)
                 | (Inr p, fs') \<Rightarrow>
                     (Inr \<lparr>r_success = None, r_item = None,
                           r_data = \<lparr>f_attachment = g_attachment g, f_shouldExtract = True,
                                     f_tabletPath = Some (g_tabletPath g)\<rparr>\<rparr>,
                      w\<lparr>w_fs := fs'\<rparr>)))
         else (Inr \<lparr>r_success = None, r_item = None,
                    r_data = \<lparr>f_attachment = g_attachment g, f_shouldExtract = False,
                              f_tabletPath = Some (g_tabletPath g)\<rparr>\<rparr>, w))
      else
        (let originalPath = joinPath [storageDir pr, attachmentKey (w_atts w (g_attachment g)),
                                      attachmentFilename (w_atts w (g_attachment g))]
         in case ensureDirectory (w_fs w) (getParentDir originalPath) of
              Inl e \<Rightarrow> (Inl e, w)
            | Inr fs1 \<Rightarrow>
                (case moveFile fs1 (g_tabletPath g) originalPath of
                   (Inl e, fs2) \<Rightarrow> (Inl e, w\<lparr>w_fs := fs2\<rparr>)
                 | (Inr p, fs2) \<Rightarrow>
                     (Inr \<lparr>r_success = None, r_item = None,
                           r_data = \<lparr>f_attachment = g_attachment g, f_shouldExtract = True,
                                     f_tabletPath = None\<rparr>\<rparr>,
                      relinkAttachmentFile (w\<lparr>w_fs := fs2\<rparr>) (g_attachment g) originalPath))))"

definition untrack :: "prefs \<Rightarrow> world \<Rightarrow> nat \<Rightarrow> world" where
  "untrack pr w a =
     clearTabletInfo
       (removeTabletTag (removeTabletTag w a (tag_onTablet pr)) a (tag_modified pr)) a"

text \<open>
  The cleanup loop over the file results; the state carries \<open>toSaveDB\<close> and \<open>toExtract\<close>.
\<close>

fun cleanup_results ::
  "prefs \<Rightarrow> (gathered, file_result) batch_entry list \<Rightarrow> world \<times> nat list \<times> nat list
     \<Rightarrow> world \<times> nat list \<times> nat list" where
  "cleanup_results pr [] st = st"
| "cleanup_results pr (r # rs) (w, toSaveDB, toExtract) =
     (case e_data r of
        None \<Rightarrow> cleanup_results pr rs (w, toSaveDB, toExtract)
      | Some res \<Rightarrow>
          (let w1 = (case f_tabletPath res of
                       None \<Rightarrow> w
                     | Some tabletPath \<Rightarrow>
                         if tabletPath = [] then w
                         else w\<lparr>w_fs := removeEmptyDirs (removeFile (w_fs w) tabletPath)
                                          (getParentDir tabletPath) (destDir pr)\<rparr>);
               w2 = untrack pr w1 (f_attachment res)
           in cleanup_results pr rs
                (w2, toSaveDB @ [f_attachment res],
                 (if f_shouldExtract res then toExtract @ [f_attachment res] else toExtract))))"

text \<open>The loop over \<open>toCleanup\<close>: attachments whose tablet file is gone.\<close>

fun cleanup_missing :: "prefs \<Rightarrow> nat list \<Rightarrow> world \<times> nat list \<Rightarrow> world \<times> nat list" where
  "cleanup_missing pr [] st = st"
| "cleanup_missing pr (a # as) (w, toSaveDB) =
     cleanup_missing pr as (untrack pr w a, toSaveDB @ [a])"

text \<open>
  What a pass leaves: the new state, and what it did on the way. A pass that is rejected
  by the batch executor leaves the error and the state.
\<close>

record get_outcome =
  o_world :: world
  o_prompted :: "nat list"      \<comment> \<open>the attachments a conflict dialog was shown for, in order\<close>
  o_applied :: "nat list"       \<comment> \<open>the attachments of \<open>toProcess\<close>, handed to \<^verbatim>\<open>processFile\<close>\<close>
  o_retrieved :: nat            \<comment> \<open>\<^verbatim>\<open>fileResults.length\<close>\<close>
  o_errors :: nat               \<comment> \<open>\<^verbatim>\<open>errors.length\<close>\<close>
  o_toSaveDB :: "nat list"
  o_toExtract :: "nat list"

definition getFromTablet ::
  "(nat \<Rightarrow> nat \<Rightarrow> int) \<Rightarrow> prefs \<Rightarrow> world \<Rightarrow> nat list \<Rightarrow> (error \<times> world + get_outcome) option" where
  "getFromTablet user pr w attachments =
     (let tabletAttachments = filter (isOnTablet pr w) attachments
      in if tabletAttachments = [] then
           Some (Inr \<lparr>o_world = w, o_prompted = [], o_applied = [], o_retrieved = 0,
                      o_errors = 0, o_toSaveDB = [], o_toExtract = []\<rparr>)
         else
           case processInBatches (\<lambda>a. Some (attachmentFilename (w_atts w a), []))
                  tabletAttachments (in_turn (gatherInfo pr)) (Some 3) (Some changeHeadline) w of
             None \<Rightarrow> None
           | Some (Inl e, w1) \<Rightarrow> Some (Inl (e, w1))
           | Some (Inr info, w1) \<Rightarrow>
               (case separate (List.map_filter e_data (successes info)) ([], [], []) of
                  (toProcess0, toCleanup, conflicts) \<Rightarrow>
                    (case resolve_conflicts user 0 conflicts (toProcess0, []) of
                       (toProcess, asked) \<Rightarrow>
                         (case processInBatches (\<lambda>g. Some ([], [])) toProcess
                                 (in_turn (get_processFile pr)) (Some 3) (Some changeHeadline) w1 of
                            None \<Rightarrow> None
                          | Some (Inl e, w2) \<Rightarrow> Some (Inl (e, w2))
                          | Some (Inr fileRes, w2) \<Rightarrow>
                              (case cleanup_results pr (successes fileRes) (w2, [], []) of
                                 (w3, toSaveDB, toExtract) \<Rightarrow>
                                   (case cleanup_missing pr toCleanup (w3, toSaveDB) of
                                      (w4, toSaveDB') \<Rightarrow>
                                        Some (Inr \<lparr>o_world = w4,
                                                   o_prompted = asked,
                                                   o_applied = map g_attachment toProcess,
                                                   o_retrieved = length (successes fileRes),
                                                   o_errors = length (errors info) +
                                                              length (errors fileRes),
                                                   o_toSaveDB = toSaveDB',
                                                   o_toExtract = toExtract\<rparr>)))))))"

section \<open>Notions used to state the results\<close>

text \<open>
  The calls of the processor in a run with window size \<open>c\<close>: how each one settles, in
  list order, and the state that the last window leaves.
\<close>

function settle_windows ::
  "('a, 'd, 's) processor \<Rightarrow> nat \<Rightarrow> 'a list \<Rightarrow> 's \<Rightarrow> (error + ('a, 'd) proc_result) list \<times> 's" where
  "settle_windows processor c items st =
     (if c = 0 \<or> items = [] then ([], st)
      else case processor (take c items) st of
             (rs, st1) \<Rightarrow>
               (case settle_windows processor c (drop c items) st1 of
                  (rs2, st2) \<Rightarrow> (rs @ rs2, st2)))"
  by pat_completeness auto
termination
  by (relation "measure (\<lambda>(processor, c, items, st). length items)") auto

text \<open>The entry that the batch executor holds for an attachment checked in state \<open>w\<close>.\<close>

definition check_entry :: "prefs \<Rightarrow> world \<Rightarrow> nat \<Rightarrow> (nat, check_result) batch_entry" where
  "check_entry pr w a =
     \<lparr>e_success = True, e_item = a,
      e_data = Some \<lparr>c_attachment = a, c_isModified = (isModified pr w a = Inr True),
                     c_hasModifiedTag = hasTag w a (tag_modified pr),
                     c_needsUpdate =
                       ((isModified pr w a = Inr True) \<noteq> hasTag w a (tag_modified pr))\<rparr>,
      e_error = None, e_filename = None\<rparr>"

text \<open>The marker that the sequential pass sets on an attachment, if any.\<close>

definition target :: "prefs \<Rightarrow> world \<Rightarrow> nat \<Rightarrow> string option" where
  "target pr w a =
     (if (isModified pr w a = Inr True) \<and> \<not> hasTag w a (tag_modified pr)
      then Some (tag_modified pr)
      else if \<not> (isModified pr w a = Inr True) \<and> hasTag w a (tag_modified pr)
      then Some (tag_onTablet pr)
      else None)"

text \<open>What \<^verbatim>\<open>addTabletTag\<close> does to the tag set of the attachment.\<close>

definition retag :: "prefs \<Rightarrow> string \<Rightarrow> string set \<Rightarrow> string set" where
  "retag pr t S =
     insert t S - {if t = tag_onTablet pr then tag_modified pr else tag_onTablet pr}"

text \<open>What the gather pass finds for an attachment, and whether it reports a conflict.\<close>

definition gather_of :: "prefs \<Rightarrow> world \<Rightarrow> nat \<Rightarrow> gather_result" where
  "gather_of pr w a = (case fst (gatherInfo pr a w) of Inr r \<Rightarrow> r_data r | Inl e \<Rightarrow> SkipNoInfo)"

definition has_conflict :: "prefs \<Rightarrow> world \<Rightarrow> nat \<Rightarrow> bool" where
  "has_conflict pr w a \<longleftrightarrow> (case gather_of pr w a of Gathered g \<Rightarrow> g_hasConflict g | _ \<Rightarrow> False)"

text \<open>\<^verbatim>\<open>info.lastmod || 0\<close>, and the modification time read for the library copy.\<close>

definition saved_time :: "tablet_info \<Rightarrow> int" where
  "saved_time r = (case lastmod r of None \<Rightarrow> 0 | Some t \<Rightarrow> t)"

definition internal_mtime :: "world \<Rightarrow> nat \<Rightarrow> int" where
  "internal_mtime w a =
     (case filePath (w_atts w a) of
        None \<Rightarrow> 0
      | Some zp \<Rightarrow> if zp = [] then 0 else getFileModTime (w_fs w) zp)"

text \<open>A tracked file that the gather pass found without conflict.\<close>

definition retrievable :: "prefs \<Rightarrow> world \<Rightarrow> nat \<Rightarrow> bool" where
  "retrievable pr w a \<longleftrightarrow>
     (case gather_of pr w a of Gathered g \<Rightarrow> \<not> g_hasConflict g | _ \<Rightarrow> False)"

text \<open>
  Of the attachments shown in the dialogs number \<open>k\<close>, \<open>k + 1\<close>, \<dots>, those for which the
  user chose one of the two versions.
\<close>

fun answered :: "(nat \<Rightarrow> nat \<Rightarrow> int) \<Rightarrow> nat \<Rightarrow> nat list \<Rightarrow> nat list" where
  "answered user k [] = []"
| "answered user k (a # as) =
     (if resolveConflict (user k a) = Cancel then answered user (k + 1) as
      else a # answered user (k + 1) as)"

text \<open>The three lists that \<open>separate\<close> builds, each on its own.\<close>

fun pending_of :: "gather_result list \<Rightarrow> gathered list" where
  "pending_of [] = []"
| "pending_of (Gathered g # rs) = (if g_hasConflict g then pending_of rs else g # pending_of rs)"
| "pending_of (r # rs) = pending_of rs"

fun missing_of :: "gather_result list \<Rightarrow> nat list" where
  "missing_of [] = []"
| "missing_of (SkipNoFile a # rs) = a # missing_of rs"
| "missing_of (r # rs) = missing_of rs"

fun conflicts_of :: "gather_result list \<Rightarrow> gathered list" where
  "conflicts_of [] = []"
| "conflicts_of (Gathered g # rs) = (if g_hasConflict g then g # conflicts_of rs else conflicts_of rs)"
| "conflicts_of (r # rs) = conflicts_of rs"

definition gather_entry :: "prefs \<Rightarrow> world \<Rightarrow> nat \<Rightarrow> (nat, gather_result) batch_entry" where
  "gather_entry pr w a =
     \<lparr>e_success = True, e_item = a, e_data = Some (gather_of pr w a), e_error = None,
      e_filename = None\<rparr>"

text \<open>
  The apply and cleanup phases, from the list of files to process and the dialogs shown.
\<close>

definition finish_get ::
  "prefs \<Rightarrow> gather_result list \<Rightarrow> gathered list \<Rightarrow> nat list \<Rightarrow> world \<Rightarrow> error \<times> world + get_outcome" where
  "finish_get pr rs toProcess asked w =
     (case run_chunk (\<lambda>g. Some ([], [])) (in_turn (get_processFile pr)) toProcess w of
        (Inl e, w2) \<Rightarrow> Inl (e, w2)
      | (Inr es, w2) \<Rightarrow>
          (case cleanup_results pr (filter e_success es) (w2, [], []) of
             (w3, toSaveDB, toExtract) \<Rightarrow>
               (case cleanup_missing pr (missing_of rs) (w3, toSaveDB) of
                  (w4, toSaveDB') \<Rightarrow>
                    Inr \<lparr>o_world = w4, o_prompted = asked,
                         o_applied = map g_attachment toProcess,
                         o_retrieved = length (filter e_success es),
                         o_errors = length (filter (\<lambda>e. \<not> e_success e) es),
                         o_toSaveDB = toSaveDB', o_toExtract = toExtract\<rparr>)))"

text \<open>A path with a hidden component: one that starts with a dot.\<close>

fun has_hidden :: "path \<Rightarrow> bool" where
  "has_hidden (a # b # r) \<longleftrightarrow> (a = CHR ''/'' \<and> b = CHR ''.'') \<or> has_hidden (b # r)"
| "has_hidden p \<longleftrightarrow> False"

text \<open>An entry that works on other paths than \<open>p\<close>.\<close>

definition off_path :: "path \<Rightarrow> gathered \<Rightarrow> bool" where
  "off_path p g \<longleftrightarrow> g_tabletPath g \<noteq> p \<and> g_zoteroPath g \<noteq> Some p"

section \<open>Sample states\<close>

definition sample_prefs :: prefs where
  "sample_prefs =
     \<lparr>destDir = ''/mnt/tablet'', syncMode = 1, rename = False, subfolder = False,
      subfolderFormat = [], tagOnTablet = [], tagModified = [],
      storageDir = ''/zotero/storage''\<rparr>"

definition blank_attachment :: attachment where
  "blank_attachment =
     \<lparr>tags = {}, anote = \<lparr>rest = [], data_el = None\<rparr>, parentItemID = None,
      filePath = None, attachmentKey = ''KEY1'', attachmentFilename = ''a.pdf'',
      isChildAttachment = True\<rparr>"

definition empty_world :: world where
  "empty_world =
     \<lparr>w_fs = \<lparr>files = [], dirs = [], dirTimes = []\<rparr>, w_atts = (\<lambda>a. blank_attachment),
      w_parents = (\<lambda>p. None)\<rparr>"

text \<open>
  A processor that counts its calls in the state and throws in its second call, and items
  that are plain numbers without names.
\<close>

definition counting :: "nat \<Rightarrow> nat \<Rightarrow> (error + (nat, nat) proc_result) \<times> nat" where
  "counting x n =
     (if n = 1 then Inl IOFailure else Inr \<lparr>r_success = None, r_item = None, r_data = 10 * x\<rparr>,
      n + 1)"

definition plain_names :: "nat \<Rightarrow> (string \<times> string) option" where
  "plain_names x = Some ([], [])"

text \<open>
  An item list that holds \<^verbatim>\<open>null\<close> where an object with names is expected, and a
  processor that throws on every item.
\<close>

definition object_names :: "(string \<times> string) option \<Rightarrow> (string \<times> string) option" where
  "object_names x = x"

definition throwing ::
  "(string \<times> string) option \<Rightarrow> unit
     \<Rightarrow> (error + ((string \<times> string) option, unit) proc_result) \<times> unit" where
  "throwing x u = (Inl IOFailure, ())"

text \<open>A processor whose result carries an \<^verbatim>\<open>item\<close> key of its own.\<close>

definition renaming :: "nat \<Rightarrow> unit \<Rightarrow> (error + (nat, unit) proc_result) \<times> unit" where
  "renaming x u = (Inr \<lparr>r_success = None, r_item = Some 7, r_data = ()\<rparr>, ())"

text \<open>The items in the two result lists of a run.\<close>

definition listed_items ::
  "((error + ('a, 'd) batch_acc) \<times> 's) option \<Rightarrow> ('a list \<times> 'a list) option" where
  "listed_items r =
     (case r of
        Some (Inr acc, st) \<Rightarrow> Some (map e_item (successes acc), map e_item (errors acc))
      | _ \<Rightarrow> None)"

text \<open>Both markers configured to the same text.\<close>

definition same_tag_prefs :: prefs where
  "same_tag_prefs = sample_prefs\<lparr>tagOnTablet := ''x'', tagModified := ''x''\<rparr>"

text \<open>A note whose data attribute holds JSON that is no record, such as \<^verbatim>\<open>[1]\<close>.\<close>

definition array_blob_world :: world where
  "array_blob_world =
     empty_world\<lparr>w_atts := (\<lambda>a. blank_attachment
        \<lparr>tags := {''_tablet''}, anote := \<lparr>rest = [], data_el = Some (Data (Parsed (POther True)))\<rparr>\<rparr>)\<rparr>"

definition corrupt_blob_world :: world where
  "corrupt_blob_world =
     empty_world\<lparr>w_atts := (\<lambda>a. blank_attachment
        \<lparr>tags := {''_tablet''}, anote := \<lparr>rest = [], data_el = Some (Data Unparsable)\<rparr>\<rparr>)\<rparr>"

text \<open>
  One attachment in Copy mode, recorded at time 5; its tablet copy was changed at time 10,
  its library copy at time \<open>t\<close>.
\<close>

definition copy_record :: tablet_info where
  "copy_record =
     \<lparr>location = Str ''[BaseFolder]/a.pdf'', lastmod = Some 5, mode = Some 1, projectFolder = []\<rparr>"

definition tracked_attachment :: attachment where
  "tracked_attachment =
     blank_attachment
       \<lparr>tags := {''_tablet''},
        anote := \<lparr>rest = [], data_el = Some (Data (Parsed (PRecord copy_record)))\<rparr>,
        filePath := Some ''/zotero/storage/KEY1/a.pdf''\<rparr>"

definition tracked_world :: "int \<Rightarrow> world" where
  "tracked_world t =
     \<lparr>w_fs = \<lparr>files = [(''/mnt/tablet/a.pdf'', \<lparr>lastModified = Some 10, content = ''new''\<rparr>),
                       (''/zotero/storage/KEY1/a.pdf'', \<lparr>lastModified = Some t, content = ''old''\<rparr>)],
             dirs = [], dirTimes = []\<rparr>,
      w_atts = (\<lambda>a. tracked_attachment), w_parents = (\<lambda>p. None)\<rparr>"

text \<open>
  One attachment in Move mode, recorded at time 5: the library links to the tablet file
  itself, which was changed at time 10.
\<close>

definition move_world :: world where
  "move_world =
     \<lparr>w_fs = \<lparr>files = [(''/mnt/tablet/a.pdf'', \<lparr>lastModified = Some 10, content = ''new''\<rparr>)],
             dirs = [], dirTimes = []\<rparr>,
      w_atts = (\<lambda>a. blank_attachment
        \<lparr>tags := {''_tablet''},
         anote := \<lparr>rest = [], data_el = Some (Data (Parsed (PRecord (copy_record\<lparr>mode := Some 2\<rparr>))))\<rparr>,
         filePath := Some ''/mnt/tablet/a.pdf''\<rparr>),
      w_parents = (\<lambda>p. None)\<rparr>"

text \<open>A user who closes every conflict dialog (button 1), and one who picks the tablet
  version in the first dialog and closes the others.\<close>

definition always_cancel :: "nat \<Rightarrow> nat \<Rightarrow> int" where
  "always_cancel k a = 1"

definition tablet_then_cancel :: "nat \<Rightarrow> nat \<Rightarrow> int" where
  "tablet_then_cancel k a = (if k = 0 then 0 else 1)"

text \<open>A user who closes the dialog for attachment 0 and picks the tablet version otherwise.\<close>

definition skip_first :: "nat \<Rightarrow> nat \<Rightarrow> int" where
  "skip_first k a = (if a = 0 then 1 else 0)"

text \<open>A destination folder written with a trailing separator.\<close>

definition slash_prefs :: prefs where
  "slash_prefs = sample_prefs\<lparr>destDir := ''/mnt/tablet/''\<rparr>"

definition plain_renderer :: renderer where
  "plain_renderer = \<lparr>formatFilename = (\<lambda>par name. name), formatSubfolder = (\<lambda>par fmt. fmt)\<rparr>"

definition unsent_world :: world where
  "unsent_world =
     \<lparr>w_fs = \<lparr>files = [(''/zotero/storage/KEY1/a.pdf'',
                        \<lparr>lastModified = Some 5, content = ''pdf''\<rparr>)],
             dirs = [], dirTimes = []\<rparr>,
      w_atts = (\<lambda>a. blank_attachment\<lparr>filePath := Some ''/zotero/storage/KEY1/a.pdf''\<rparr>),
      w_parents = (\<lambda>p. None)\<rparr>"

text \<open>
  Sending one attachment and reading its record back: the location as stored, the
  location as \<^verbatim>\<open>getTabletInfo\<close> resolves it, and the paths of the files then on disk.
\<close>

definition send_and_read ::
  "renderer \<Rightarrow> prefs \<Rightarrow> world \<Rightarrow> nat \<Rightarrow> (jsval \<times> jsval \<times> path list) option" where
  "send_and_read rd pr w a =
     (case sendToTablet rd pr w [a] [] of
        None \<Rightarrow> None
      | Some (Inl e) \<Rightarrow> None
      | Some (Inr (w1, n, e)) \<Rightarrow>
          Some (info_location (case data_el (anote (w_atts w1 a)) of
                                 Some (Data (Parsed p)) \<Rightarrow> p
                               | _ \<Rightarrow> PNull),
                info_location (getTabletInfo pr w1 a),
                map fst (files (w_fs w1))))"

text \<open>
  A folder with a readable file, a file that \<^verbatim>\<open>stat\<close> refuses, and a directory stamped
  at time 7.
\<close>

definition stat_fs :: filesystem where
  "stat_fs =
     \<lparr>files = [(''/t/a.pdf'', \<lparr>lastModified = Some 9, content = ''x''\<rparr>),
               (''/t/locked.pdf'', \<lparr>lastModified = None, content = ''y''\<rparr>)],
      dirs = [''/t/d''], dirTimes = [(''/t/d'', 7)]\<rparr>"

text \<open>A destination name without extension that is already taken.\<close>

definition dotless_fs :: filesystem where
  "dotless_fs =
     \<lparr>files = [(''/t/README'', \<lparr>lastModified = Some 1, content = ''old''\<rparr>),
               (''/s/x'', \<lparr>lastModified = Some 2, content = ''new''\<rparr>)],
      dirs = [], dirTimes = []\<rparr>"

text \<open>
  Two attachments in Copy mode, both recorded at time 5. Attachment 0 was changed on both
  sides; every other attachment (such as 1) only on the tablet.
\<close>

definition two_file_world :: world where
  "two_file_world =
     \<lparr>w_fs = \<lparr>files = [(''/mnt/tablet/a.pdf'', \<lparr>lastModified = Some 10, content = ''a2''\<rparr>),
                       (''/zotero/storage/KEY1/a.pdf'', \<lparr>lastModified = Some 20, content = ''a3''\<rparr>),
                       (''/mnt/tablet/b.pdf'', \<lparr>lastModified = Some 10, content = ''b2''\<rparr>),
                       (''/zotero/storage/KEY2/b.pdf'', \<lparr>lastModified = Some 3, content = ''b1''\<rparr>)],
             dirs = [], dirTimes = []\<rparr>,
      w_atts = (\<lambda>a. if a = 0 then tracked_attachment
                     else tracked_attachment
                       \<lparr>anote := \<lparr>rest = [], data_el = Some (Data (Parsed (PRecord
                            (copy_record\<lparr>location := Str ''[BaseFolder]/b.pdf''\<rparr>))))\<rparr>,
                        filePath := Some ''/zotero/storage/KEY2/b.pdf'',
                        attachmentKey := ''KEY2'', attachmentFilename := ''b.pdf''\<rparr>),
      w_parents = (\<lambda>p. None)\<rparr>"

text \<open>The same two attachments, both changed on both sides.\<close>

definition two_conflict_world :: world where
  "two_conflict_world =
     two_file_world\<lparr>w_fs :=
       \<lparr>files = [(''/mnt/tablet/a.pdf'', \<lparr>lastModified = Some 10, content = ''a2''\<rparr>),
                 (''/zotero/storage/KEY1/a.pdf'', \<lparr>lastModified = Some 20, content = ''a3''\<rparr>),
                 (''/mnt/tablet/b.pdf'', \<lparr>lastModified = Some 10, content = ''b2''\<rparr>),
                 (''/zotero/storage/KEY2/b.pdf'', \<lparr>lastModified = Some 30, content = ''b3''\<rparr>)],
        dirs = [], dirTimes = []\<rparr>\<rparr>"

text \<open>
  What a pass did about an attachment: the dialogs shown, what is left of the record in
  its note, and whether a given path still exists.
\<close>

definition observe_pass ::
  "(error \<times> world + get_outcome) option \<Rightarrow> nat \<Rightarrow> path
     \<Rightarrow> (nat list \<times> data_attr option \<times> bool) option" where
  "observe_pass r a p =
     (case r of
        Some (Inr out) \<Rightarrow>
          Some (o_prompted out, data_el (anote (w_atts (o_world out) a)),
                fileExists (w_fs (o_world out)) p)
      | _ \<Rightarrow> None)"

text \<open>The dialogs shown in a pass.\<close>

definition prompted_in :: "(error \<times> world + get_outcome) option \<Rightarrow> nat list option" where
  "prompted_in r = (case r of Some (Inr out) \<Rightarrow> Some (o_prompted out) | _ \<Rightarrow> None)"

declare batch_loop.simps [code]

section \<open>Modification times are always defined\<close>

lemma getFileModTime_unfold:
  "getFileModTime fs p =
     (case lookup fs p of
        Some f \<Rightarrow> (case lastModified f of None \<Rightarrow> 0 | Some t \<Rightarrow> t)
      | None \<Rightarrow>
          if isDirectory fs p then (case map_of (dirTimes fs) p of None \<Rightarrow> 0 | Some t \<Rightarrow> t)
          else 0)"
  by (simp add: getFileModTime_def stat_def split: option.splits)

text \<open>
  Claim C10. \<^verbatim>\<open>getFileModTime\<close> answers with an integer for every path: the time that
  \<^verbatim>\<open>stat\<close> reports when it succeeds, for a file and for a directory alike, and 0 when
  \<^verbatim>\<open>stat\<close> is rejected. At a path where nothing exists \<^verbatim>\<open>stat\<close> is rejected, so the
  answer is 0. A path that is missing or cannot be stat-ed is therefore never newer than
  a recorded timestamp \<open>T \<ge> 0\<close>.
\<close>

theorem getFileModTime_total:
  "(\<forall>t. stat fs p = Inr t \<longrightarrow> getFileModTime fs p = t) \<and>
   (\<forall>e. stat fs p = Inl e \<longrightarrow> getFileModTime fs p = 0) \<and>
   (\<not> fileExists fs p \<longrightarrow> stat fs p = Inl IOFailure \<and> getFileModTime fs p = 0) \<and>
   (\<not> fileExists fs p \<or> (\<exists>e. stat fs p = Inl e) \<longrightarrow> 0 \<le> T \<longrightarrow> \<not> T < getFileModTime fs p)"
proof -
  have m: "\<not> fileExists fs p \<Longrightarrow> stat fs p = Inl IOFailure"
    by (simp add: fileExists_def stat_def)
  show ?thesis
    using m by (auto simp: getFileModTime_def)
qed

theorem getFileModTime_total_witness:
  "\<not> fileExists stat_fs ''/t/gone'' \<and> getFileModTime stat_fs ''/t/gone'' = 0 \<and>
   \<not> (5::int) < getFileModTime stat_fs ''/t/gone'' \<and>
   stat stat_fs ''/t/locked.pdf'' = Inl IOFailure \<and> getFileModTime stat_fs ''/t/locked.pdf'' = 0 \<and>
   \<not> (5::int) < getFileModTime stat_fs ''/t/locked.pdf'' \<and>
   stat stat_fs ''/t/a.pdf'' = Inr 9 \<and> getFileModTime stat_fs ''/t/a.pdf'' = 9 \<and>
   fileExists stat_fs ''/t/d'' \<and> stat stat_fs ''/t/d'' = Inr 7 \<and> getFileModTime stat_fs ''/t/d'' = 7"
proof -
  have gone: "\<not> fileExists stat_fs ''/t/gone''" by code_simp
  have locked: "stat stat_fs ''/t/locked.pdf'' = Inl IOFailure" by code_simp
  have plain: "stat stat_fs ''/t/a.pdf'' = Inr 9" by code_simp
  have dir: "fileExists stat_fs ''/t/d''" "stat stat_fs ''/t/d'' = Inr 7" by code_simp+
  show ?thesis
    using getFileModTime_total [of stat_fs "''/t/gone''" 5]
          getFileModTime_total [of stat_fs "''/t/locked.pdf''" 5]
          getFileModTime_total [of stat_fs "''/t/a.pdf''" 5]
          getFileModTime_total [of stat_fs "''/t/d''" 5]
          gone locked plain dir
    by simp
qed

section \<open>The batch executor processes every item\<close>

declare settle_windows.simps [simp del]

lemma js_slice_window:
  assumes "0 \<le> i" and "i < int (length xs)" and "0 < c"
  shows "js_slice xs i (i + c) = take (nat c) (drop (nat i) xs)"
proof -
  have lo: "min i (int (length xs)) = i" using assms by simp
  show ?thesis
  proof (cases "i + c \<le> int (length xs)")
    case True
    then have "min (i + c) (int (length xs)) = i + c" by simp
    then show ?thesis using assms by (simp add: js_slice_def Let_def lo)
  next
    case False
    then have h: "min (i + c) (int (length xs)) = int (length xs)" by simp
    have "nat (int (length xs) - i) = length (drop (nat i) xs)" using assms by simp
    moreover have "length (drop (nat i) xs) \<le> nat c" using False assms by simp
    ultimately have "take (nat (int (length xs) - i)) (drop (nat i) xs) =
                     take (nat c) (drop (nat i) xs)" by simp
    then show ?thesis using assms by (simp add: js_slice_def Let_def lo h)
  qed
qed

text \<open>\<^verbatim>\<open>Promise.all\<close> is fulfilled exactly when every promise is.\<close>

lemma promise_all_Inr: "promise_all l = Inr vs \<longleftrightarrow> l = map Inr vs"
proof (induction l arbitrary: vs)
  case Nil
  then show ?case by auto
next
  case (Cons x l)
  show ?case
  proof (cases x)
    case (Inl e)
    then show ?thesis by (cases vs) auto
  next
    case (Inr v)
    then show ?thesis using Cons [of "tl vs"]
      by (cases vs) (auto split: sum.splits)
  qed
qed

text \<open>With a callback that returns, the inner loop files every entry and counts it.\<close>

lemma absorb_quiet:
  assumes "\<forall>k. cb k n = None"
  shows "absorb cb n es acc =
     Inr \<lparr>successes = successes acc @ filter e_success es,
          errors = errors acc @ filter (\<lambda>e. \<not> e_success e) es,
          completed = completed acc + length es,
          progress = progress acc @
                     map (\<lambda>k. (k, n)) [Suc (completed acc)..<Suc (completed acc + length es)]\<rparr>"
  using assms
proof (induction es arbitrary: acc)
  case Nil
  then show ?case by simp
next
  case (Cons e es)
  have "[Suc (completed acc)..<Suc (Suc (completed acc + length es))] =
        Suc (completed acc) # [Suc (Suc (completed acc))..<Suc (Suc (completed acc + length es))]"
    by (simp add: upt_rec)
  then show ?case using Cons by simp
qed

lemma settle_windows_Nil: "settle_windows run c [] st = ([], st)"
  by (subst settle_windows.simps) simp

lemma settle_windows_step:
  assumes "0 < c" and "xs \<noteq> []"
  shows "settle_windows run c xs st =
           (case run (take c xs) st of
              (rs, st1) \<Rightarrow>
                (case settle_windows run c (drop c xs) st1 of (rs2, st2) \<Rightarrow> (rs @ rs2, st2)))"
  using assms by (subst settle_windows.simps) simp

lemma length_settle_windows:
  assumes "0 < c" and "\<forall>xs s. length (fst (run xs s)) = length xs"
  shows "length (fst (settle_windows run c xs st)) = length xs"
proof (induction "length xs" arbitrary: xs st rule: less_induct)
  case less
  show ?case
  proof (cases "xs = []")
    case True
    then show ?thesis by (simp add: settle_windows_Nil)
  next
    case False
    obtain rs st1 where r: "run (take c xs) st = (rs, st1)" by (cases "run (take c xs) st")
    obtain rs2 st2 where s: "settle_windows run c (drop c xs) st1 = (rs2, st2)"
      by (cases "settle_windows run c (drop c xs) st1")
    have l1: "length rs = length (take c xs)" using assms(2) r by (metis fst_conv)
    have "length (drop c xs) < length xs" using False assms(1) by simp
    then have l2: "length rs2 = length (drop c xs)" using less [of "drop c xs" st1] s by simp
    have "length (rs @ rs2) = length (take c xs @ drop c xs)" using l1 l2 by simp
    moreover have "settle_windows run c xs st = (rs @ rs2, st2)"
      by (simp only: settle_windows_step [OF assms(1) False] r s prod.case)
    ultimately show ?thesis by simp
  qed
qed

text \<open>
  With a positive step the loop ends: it runs the windows one after another and files
  what they deliver.
\<close>

lemma batch_loop_closed:
  assumes c: "0 < c" and i: "0 \<le> i"
    and quiet: "\<forall>k. cb k (length items) = None"
    and wf: "\<forall>xs s. length (fst (run xs s)) = length xs"
    and window: "\<And>xs s rs s' vs. run xs s = (rs, s') \<Longrightarrow>
                   map (\<lambda>(x, r). run_one nm x r) (zip xs rs) = map Inr vs \<Longrightarrow>
                   run_chunk nm run xs s = (Inr vs, s')"
    and sw: "settle_windows run (nat c) (drop (nat i) items) st = (rs, st')"
    and pa: "map (\<lambda>(x, r). run_one nm x r) (zip (drop (nat i) items) rs) = map Inr es"
  shows "batch_loop nm run cb c items i acc st =
           Some (Inr \<lparr>successes = successes acc @ filter e_success es,
                      errors = errors acc @ filter (\<lambda>e. \<not> e_success e) es,
                      completed = completed acc + length es,
                      progress = progress acc @
                        map (\<lambda>k. (k, length items))
                          [Suc (completed acc)..<Suc (completed acc + length es)]\<rparr>, st')"
  using i sw pa
proof (induction "nat (int (length items) - i)" arbitrary: i acc st rs es rule: less_induct)
  case less
  show ?case
  proof (cases "i < int (length items)")
    case False
    then have d: "drop (nat i) items = []" using less.prems by simp
    have "rs = []" "st' = st" using less.prems(2) by (simp_all add: d settle_windows_Nil)
    moreover have "es = []" using less.prems(3) by (simp add: d)
    ultimately show ?thesis using False by (subst batch_loop.simps) simp
  next
    case True
    let ?xs = "drop (nat i) items"
    let ?w = "take (nat c) ?xs"
    have ne: "?xs \<noteq> []" using True less.prems(1) by simp
    have cp: "0 < nat c" using c by simp
    obtain rs1 st1 where r: "run ?w st = (rs1, st1)" by (cases "run ?w st")
    obtain rs2 st2 where s: "settle_windows run (nat c) (drop (nat c) ?xs) st1 = (rs2, st2)"
      by (cases "settle_windows run (nat c) (drop (nat c) ?xs) st1")
    have "settle_windows run (nat c) ?xs st = (rs1 @ rs2, st2)"
      by (simp only: settle_windows_step [OF cp ne] r s prod.case)
    then have rs: "rs = rs1 @ rs2" and st': "st' = st2"
      using less.prems(2) by simp_all
    have l1: "length rs1 = length ?w" using wf r by (metis fst_conv)
    have sl: "js_slice items i (i + c) = ?w"
      using js_slice_window [OF less.prems(1) True c] .
    have dr: "drop (nat (i + c)) items = drop (nat c) ?xs"
      using less.prems(1) c by (simp add: nat_add_distrib add.commute)
    have "zip ?xs rs = zip (?w @ drop (nat c) ?xs) (rs1 @ rs2)"
      by (simp only: rs append_take_drop_id)
    also have "\<dots> = zip ?w rs1 @ zip (drop (nat c) ?xs) rs2"
      using l1 by (intro zip_append) simp
    finally have z: "zip ?xs rs = zip ?w rs1 @ zip (drop (nat c) ?xs) rs2" .
    let ?f = "\<lambda>(x, r). run_one nm x r"
    have m: "map ?f (zip ?w rs1) @ map ?f (zip (drop (nat c) ?xs) rs2) = map Inr es"
      using less.prems(3) by (simp only: z map_append)
    define es1 where "es1 = take (length ?w) es"
    define es2 where "es2 = drop (length ?w) es"
    have es: "es = es1 @ es2" by (simp add: es1_def es2_def)
    have lz: "length (map ?f (zip ?w rs1)) = length ?w" using l1 by simp
    have "take (length ?w) (map ?f (zip ?w rs1) @ map ?f (zip (drop (nat c) ?xs) rs2)) =
          take (length ?w) (map Inr es)" using m by simp
    then have m1: "map ?f (zip ?w rs1) = map Inr es1"
      using lz by (simp add: es1_def take_map)
    have "drop (length ?w) (map ?f (zip ?w rs1) @ map ?f (zip (drop (nat c) ?xs) rs2)) =
          drop (length ?w) (map Inr es)" using m by simp
    then have m2: "map ?f (zip (drop (nat c) ?xs) rs2) = map Inr es2"
      using lz by (simp add: es2_def drop_map)
    have rc: "run_chunk nm run ?w st = (Inr es1, st1)"
      using r m1 by (rule window)
    let ?acc1 = "\<lparr>successes = successes acc @ filter e_success es1,
                  errors = errors acc @ filter (\<lambda>e. \<not> e_success e) es1,
                  completed = completed acc + length es1,
                  progress = progress acc @
                    map (\<lambda>k. (k, length items))
                      [Suc (completed acc)..<Suc (completed acc + length es1)]\<rparr>"
    have ab: "absorb cb (length items) es1 acc = Inr ?acc1"
      using quiet by (rule absorb_quiet [of cb "length items"])
    have IH: "batch_loop nm run cb c items (i + c) ?acc1 st1 =
           Some (Inr \<lparr>successes = successes ?acc1 @ filter e_success es2,
                      errors = errors ?acc1 @ filter (\<lambda>e. \<not> e_success e) es2,
                      completed = completed ?acc1 + length es2,
                      progress = progress ?acc1 @
                        map (\<lambda>k. (k, length items))
                          [Suc (completed ?acc1)..<Suc (completed ?acc1 + length es2)]\<rparr>, st')"
    proof (rule less.hyps)
      show "nat (int (length items) - (i + c)) < nat (int (length items) - i)"
        using True c by simp
      show "0 \<le> i + c" using less.prems(1) c by simp
      show "settle_windows run (nat c) (drop (nat (i + c)) items) st1 = (rs2, st')"
        by (simp only: dr s st')
      show "map ?f (zip (drop (nat (i + c)) items) rs2) = map Inr es2"
        by (simp only: dr m2)
    qed
    have up0: "[Suc (completed acc)..<Suc (completed acc + length es1)] @
              [Suc (completed acc + length es1)..<Suc (completed acc + length es1 + length es2)] =
              [Suc (completed acc)..<Suc (completed acc + (length es1 + length es2))]"
      using upt_add_eq_append [of "Suc (completed acc)" "Suc (completed acc + length es1)" "length es2"]
      by (simp add: add.assoc del: upt_Suc)
    have up: "map (\<lambda>k. (k, length items)) [Suc (completed acc)..<Suc (completed acc + length es1)] @
              map (\<lambda>k. (k, length items))
                [Suc (completed acc + length es1)..<Suc (completed acc + (length es1 + length es2))] =
              map (\<lambda>k. (k, length items))
                [Suc (completed acc)..<Suc (completed acc + (length es1 + length es2))]"
      unfolding map_append [symmetric] using up0 by (simp only: add.assoc)
    have "batch_loop nm run cb c items i acc st =
            batch_loop nm run cb c items (i + c) ?acc1 st1"
      using True by (subst batch_loop.simps) (simp add: sl rc ab)
    also note IH
    finally show ?thesis
      using up by (simp add: es add.assoc del: upt_Suc)
  qed
qed


lemma partition_items:
  "mset (map e_item (filter e_success es)) + mset (map e_item (filter (\<lambda>e. \<not> e_success e) es)) =
     mset (map e_item es)"
  by (induction es) simp_all

lemma run_one_fulfilled:
  assumes "\<forall>e. settled = Inl e \<longrightarrow> names x \<noteq> None"
  shows "\<exists>v. run_one names x settled = Inr v"
  using assms by (cases settled) (auto simp: run_one_def split: option.splits)

lemma processInBatches_closed:
  assumes c: "0 < c"
    and quiet: "\<forall>k. effective_onProgress cb k (length items) = None"
    and wf: "\<forall>xs s. length (fst (run xs s)) = length xs"
    and window: "\<And>xs s rs s' vs. run xs s = (rs, s') \<Longrightarrow>
                   map (\<lambda>(x, r). run_one nm x r) (zip xs rs) = map Inr vs \<Longrightarrow>
                   run_chunk nm run xs s = (Inr vs, s')"
    and sw: "settle_windows run (nat c) items st = (rs, st')"
    and pa: "map (\<lambda>(x, r). run_one nm x r) (zip items rs) = map Inr es"
  shows "processInBatches nm items run (Some c) cb st =
           Some (Inr \<lparr>successes = filter e_success es,
                      errors = filter (\<lambda>e. \<not> e_success e) es,
                      completed = length items,
                      progress = map (\<lambda>k. (k, length items)) [1..<Suc (length items)]\<rparr>, st')"
proof -
  have ec: "effective_concurrency (Some c) = c" using c by (simp add: effective_concurrency_def)
  have "length rs = length items"
    using length_settle_windows [of "nat c" run items st] c wf sw by simp
  then have "length (map (\<lambda>(x, r). run_one nm x r) (zip items rs)) = length items" by simp
  then have len: "length es = length items" using pa by (metis length_map)
  have "batch_loop nm run (effective_onProgress cb) c items 0
          \<lparr>successes = [], errors = [], completed = 0, progress = []\<rparr> st =
        Some (Inr \<lparr>successes = [] @ filter e_success es,
                   errors = [] @ filter (\<lambda>e. \<not> e_success e) es,
                   completed = 0 + length es,
                   progress = [] @ map (\<lambda>k. (k, length items)) [Suc 0..<Suc (0 + length es)]\<rparr>, st')"
    using batch_loop_closed [where c = c and i = 0 and cb = "effective_onProgress cb"
            and items = items and run = run and st = st and rs = rs and st' = st' and nm = nm
            and es = es
            and acc = "\<lparr>successes = [], errors = [], completed = 0, progress = []\<rparr>"]
          c quiet wf window sw pa
    by simp
  then show ?thesis
    unfolding processInBatches_def ec by (simp add: len del: upt_Suc)
qed

text \<open>
  Claim C3, as the code has it. Take a positive concurrency, a progress callback that
  returns, a processor that settles every call, and an item list in which every item
  whose processor call throws is an object (not \<^verbatim>\<open>null\<close> or \<^verbatim>\<open>undefined\<close>). Then
  \<^verbatim>\<open>processInBatches\<close> returns, after the processor has been run on every window,
  whatever the calls do to the state and however they interleave within a window. There is one entry per item, in list order.
  For a call that throws, the entry holds the item and the error, is flagged as failed
  and is filed under the errors only. For a call that returns, the entry is flagged as
  the result's \<^verbatim>\<open>success\<close> key says (success when there is none), holds the result's
  \<^verbatim>\<open>item\<close> key in place of the item when there is one, and is filed under the
  successes or the errors by its flag. When no result carries an \<^verbatim>\<open>item\<close> key, the items
  of the two lists together are exactly the input items. The callback is called once per
  item, with the counts \<open>1, 2, \<dots>, n\<close> and the total \<open>n\<close>.
\<close>

theorem processInBatches_partition:
  fixes processor :: "('a, 'd, 's) processor"
  assumes "0 < c"
    and "\<forall>xs s. length (fst (processor xs s)) = length xs"
    and "\<forall>k. effective_onProgress onProgress k (length items) = None"
    and "\<forall>i < length items.
           (\<exists>e. fst (settle_windows processor (nat c) items st) ! i = Inl e) \<longrightarrow>
           names (items ! i) \<noteq> None"
  shows "\<exists>acc es.
     processInBatches names items processor (Some c) onProgress st =
       Some (Inr acc, snd (settle_windows processor (nat c) items st)) \<and>
     length es = length items \<and>
     successes acc = filter e_success es \<and>
     errors acc = filter (\<lambda>e. \<not> e_success e) es \<and>
     (\<forall>i < length items. \<forall>e.
        fst (settle_windows processor (nat c) items st) ! i = Inl e \<longrightarrow>
          e_item (es ! i) = items ! i \<and> e_error (es ! i) = Some e \<and> \<not> e_success (es ! i) \<and>
          es ! i \<in> set (errors acc) \<and> es ! i \<notin> set (successes acc)) \<and>
     (\<forall>i < length items. \<forall>r.
        fst (settle_windows processor (nat c) items st) ! i = Inr r \<longrightarrow>
          e_success (es ! i) = (r_success r \<noteq> Some False) \<and>
          e_item (es ! i) = (case r_item r of None \<Rightarrow> items ! i | Some y \<Rightarrow> y) \<and>
          e_data (es ! i) = Some (r_data r) \<and> e_error (es ! i) = None \<and>
          (es ! i \<in> set (successes acc) \<longleftrightarrow> e_success (es ! i)) \<and>
          (es ! i \<in> set (errors acc) \<longleftrightarrow> \<not> e_success (es ! i))) \<and>
     ((\<forall>i < length items. \<forall>r.
         fst (settle_windows processor (nat c) items st) ! i = Inr r \<longrightarrow> r_item r = None) \<longrightarrow>
        map e_item es = items \<and>
        mset (map e_item (successes acc)) + mset (map e_item (errors acc)) = mset items) \<and>
     completed acc = length items \<and>
     progress acc = map (\<lambda>k. (k, length items)) [1..<Suc (length items)]"
proof -
  obtain rs st' where sw: "settle_windows processor (nat c) items st = (rs, st')"
    by (cases "settle_windows processor (nat c) items st")
  have lr: "length rs = length items"
    using length_settle_windows [of "nat c" processor items st] assms(1,2) sw by simp
  let ?f = "\<lambda>(x, r). run_one names x r"
  define es where "es = map (\<lambda>p. projr (?f p)) (zip items rs)"
  have len: "length es = length items" using lr by (simp add: es_def)
  have ful: "\<exists>v. run_one names (items ! i) (rs ! i) = Inr v" if "i < length items" for i
    using assms(4) that by (intro run_one_fulfilled) (simp add: sw)
  have nth: "run_one names (items ! i) (rs ! i) = Inr (es ! i)" if "i < length items" for i
    using ful [OF that] that lr by (auto simp: es_def)
  have pa: "map ?f (zip items rs) = map Inr es"
    using lr len nth by (auto simp: list_eq_iff_nth_eq)
  let ?acc = "\<lparr>successes = filter e_success es, errors = filter (\<lambda>e. \<not> e_success e) es,
               completed = length items,
               progress = map (\<lambda>k. (k, length items)) [1..<Suc (length items)]\<rparr>"
  have window: "run_chunk names processor xs s = (Inr vs, s')"
    if "processor xs s = (rs, s')"
      and "map (\<lambda>(x, r). run_one names x r) (zip xs rs) = map Inr vs" for xs s rs s' vs
    using that by (simp add: run_chunk_def promise_all_Inr)
  have run: "processInBatches names items processor (Some c) onProgress st = Some (Inr ?acc, st')"
    by (rule processInBatches_closed [OF assms(1) assms(3) assms(2) window sw pa])
  have mem: "es ! i \<in> set es" if "i < length items" for i
    using that len by simp
  have thrown: "e_item (es ! i) = items ! i \<and> e_error (es ! i) = Some e \<and> \<not> e_success (es ! i)"
    if i: "i < length items" and r: "rs ! i = Inl e" for i e
  proof -
    obtain nm where "names (items ! i) = Some nm" using assms(4) i r by (auto simp: sw)
    then have "Inr (es ! i) =
        (Inr \<lparr>e_success = False, e_item = items ! i, e_data = None, e_error = Some e,
              e_filename = Some (item_label nm)\<rparr> :: error + ('a, 'd) batch_entry)"
      using nth [OF i] r by (simp add: run_one_def)
    then have "es ! i =
        \<lparr>e_success = False, e_item = items ! i, e_data = None, e_error = Some e,
         e_filename = Some (item_label nm)\<rparr>" by (simp only: sum.inject)
    then show ?thesis by simp
  qed
  have returned: "e_success (es ! i) = (r_success r \<noteq> Some False) \<and>
                  e_item (es ! i) = (case r_item r of None \<Rightarrow> items ! i | Some y \<Rightarrow> y) \<and>
                  e_data (es ! i) = Some (r_data r) \<and> e_error (es ! i) = None"
    if i: "i < length items" and r: "rs ! i = Inr r" for i r
  proof -
    have "Inr (es ! i) =
        (Inr \<lparr>e_success = (case r_success r of None \<Rightarrow> True | Some b \<Rightarrow> b),
              e_item = (case r_item r of None \<Rightarrow> items ! i | Some y \<Rightarrow> y),
              e_data = Some (r_data r), e_error = None, e_filename = None\<rparr>
          :: error + ('a, 'd) batch_entry)"
      using nth [OF i] r by (simp add: run_one_def)
    then have "es ! i =
        \<lparr>e_success = (case r_success r of None \<Rightarrow> True | Some b \<Rightarrow> b),
         e_item = (case r_item r of None \<Rightarrow> items ! i | Some y \<Rightarrow> y),
         e_data = Some (r_data r), e_error = None, e_filename = None\<rparr>" by (simp only: sum.inject)
    then show ?thesis by (simp split: option.splits)
  qed
  have items: "map e_item es = items"
    if a: "\<forall>i < length items. \<forall>r. rs ! i = Inr r \<longrightarrow> r_item r = None"
  proof (rule nth_equalityI)
    show "length (map e_item es) = length items" using len by simp
    fix i assume "i < length (map e_item es)"
    then have i: "i < length items" using len by simp
    show "map e_item es ! i = items ! i"
    proof (cases "rs ! i")
      case (Inl e)
      then show ?thesis using thrown [OF i Inl] i len by simp
    next
      case (Inr r)
      then show ?thesis using returned [OF i Inr] a i len by simp
    qed
  qed
  have part: "mset (map e_item (filter e_success es)) +
              mset (map e_item (filter (\<lambda>e. \<not> e_success e) es)) = mset items"
    if a: "\<forall>i < length items. \<forall>r. rs ! i = Inr r \<longrightarrow> r_item r = None"
    using partition_items [of es] items [OF a] by simp
  show ?thesis
    apply (rule exI [of _ ?acc])
    apply (rule exI [of _ es])
    using run len mem thrown returned items part
    by (simp add: sw)
qed


text \<open>Calls that run in turn: the windows add up to one pass over the list.\<close>

lemma length_in_turn: "length (fst (in_turn f xs st)) = length xs"
proof (induction xs arbitrary: st)
  case Nil
  then show ?case by simp
next
  case (Cons x xs)
  obtain r st1 where f: "f x st = (r, st1)" by (cases "f x st")
  obtain rs st2 where t: "in_turn f xs st1 = (rs, st2)" by (cases "in_turn f xs st1")
  have "length rs = length xs" using Cons [of st1] t by simp
  then show ?case by (simp add: f t)
qed

lemma in_turn_append:
  "in_turn f (xs @ ys) st =
     (case in_turn f xs st of
        (rs, st1) \<Rightarrow> (case in_turn f ys st1 of (rs2, st2) \<Rightarrow> (rs @ rs2, st2)))"
  by (induction xs arbitrary: st) (simp_all split: prod.splits)

lemma settle_windows_in_turn:
  assumes "0 < c"
  shows "settle_windows (in_turn f) c xs st = in_turn f xs st"
proof (induction "length xs" arbitrary: xs st rule: less_induct)
  case less
  show ?case
  proof (cases "xs = []")
    case True
    then show ?thesis by (simp add: settle_windows_Nil)
  next
    case False
    have "length (drop c xs) < length xs" using False assms by simp
    then have IH: "settle_windows (in_turn f) c (drop c xs) s = in_turn f (drop c xs) s" for s
      by (rule less)
    have "in_turn f xs st = in_turn f (take c xs @ drop c xs) st" by simp
    also have "\<dots> = (case in_turn f (take c xs) st of
                        (rs, st1) \<Rightarrow>
                          (case in_turn f (drop c xs) st1 of (rs2, st2) \<Rightarrow> (rs @ rs2, st2)))"
      by (rule in_turn_append)
    finally show ?thesis
      by (simp only: settle_windows_step [OF assms False] IH)
  qed
qed

lemma run_chunk_in_turn_Nil: "run_chunk nm (in_turn f) [] st = (Inr [], st)"
  by (simp add: run_chunk_def)

lemma run_chunk_in_turn_Cons:
  "run_chunk nm (in_turn f) (x # xs) st =
     (case f x st of
        (r, st1) \<Rightarrow>
          (case run_chunk nm (in_turn f) xs st1 of
             (res, st2) \<Rightarrow>
               (case run_one nm x r of
                  Inl e \<Rightarrow> Inl e
                | Inr en \<Rightarrow> (case res of Inl e \<Rightarrow> Inl e | Inr es \<Rightarrow> Inr (en # es)), st2)))"
  by (simp add: run_chunk_def split: prod.splits sum.splits)

lemma run_chunk_in_turn_ConsE:
  assumes "run_chunk nm (in_turn f) (x # xs) st = (Inr es, st')"
  obtains r st1 e es1 where "f x st = (r, st1)" and "run_one nm x r = Inr e"
    and "run_chunk nm (in_turn f) xs st1 = (Inr es1, st')" and "es = e # es1"
  using assms
  by (auto simp: run_chunk_in_turn_Cons split: prod.splits sum.splits)

lemma processInBatches_in_turn:
  assumes c: "0 < c"
    and quiet: "\<forall>k. effective_onProgress cb k (length items) = None"
    and rc: "run_chunk nm (in_turn f) items st = (Inr es, st')"
  shows "processInBatches nm items (in_turn f) (Some c) cb st =
           Some (Inr \<lparr>successes = filter e_success es,
                      errors = filter (\<lambda>e. \<not> e_success e) es,
                      completed = length items,
                      progress = map (\<lambda>k. (k, length items)) [1..<Suc (length items)]\<rparr>, st')"
proof -
  obtain rs where it: "in_turn f items st = (rs, st')"
    and pa: "promise_all (map (\<lambda>(x, r). run_one nm x r) (zip items rs)) = Inr es"
    using rc by (auto simp: run_chunk_def split: prod.splits)
  have sw: "settle_windows (in_turn f) (nat c) items st = (rs, st')"
    using c it by (simp add: settle_windows_in_turn)
  have wf: "\<forall>xs s. length (fst (in_turn f xs s)) = length xs"
    by (simp add: length_in_turn)
  have window: "run_chunk nm (in_turn f) xs s = (Inr vs, s')"
    if "in_turn f xs s = (rs, s')"
      and "map (\<lambda>(x, r). run_one nm x r) (zip xs rs) = map Inr vs" for xs s rs s' vs
    using that by (simp add: run_chunk_def promise_all_Inr)
  have pa': "map (\<lambda>(x, r). run_one nm x r) (zip items rs) = map Inr es"
    using pa by (simp add: promise_all_Inr)
  show ?thesis
    by (rule processInBatches_closed [OF c quiet wf window sw pa'])
qed

theorem processInBatches_partition_witness:
  "\<exists>acc. processInBatches plain_names [1, 2, 3] (in_turn counting) (Some 2) (Some changeHeadline) 0 =
            Some (Inr acc, 3) \<and>
         map e_item (successes acc) = [1, 3] \<and>
         map e_data (successes acc) = [Some 10, Some 30] \<and>
         map e_item (errors acc) = [2] \<and>
         map e_error (errors acc) = [Some IOFailure] \<and>
         completed acc = 3 \<and>
         progress acc = [(1, 3), (2, 3), (3, 3)] \<and>
         listed_items (processInBatches plain_names [1, 2, 3] (in_turn counting) (Some 2)
                         (Some changeHeadline) 0) = Some ([1, 3], [2])"
proof -
  have sw: "settle_windows (in_turn counting) (nat 2) [1, 2, 3] 0 =
              ([Inr \<lparr>r_success = None, r_item = None, r_data = 10\<rparr>, Inl IOFailure,
                Inr \<lparr>r_success = None, r_item = None, r_data = 30\<rparr>], 3)"
    by code_simp
  have wf: "\<forall>xs s. length (fst (in_turn counting xs s)) = length xs"
    by (simp add: length_in_turn)
  have quiet: "\<forall>k. effective_onProgress (Some changeHeadline) k (length [1, 2, 3 :: nat]) = None"
    by (simp add: effective_onProgress_def changeHeadline_def)
  have named: "\<forall>i < length [1, 2, 3 :: nat].
      (\<exists>e. fst (settle_windows (in_turn counting) (nat 2) [1, 2, 3] 0) ! i = Inl e) \<longrightarrow>
      plain_names ([1, 2, 3] ! i) \<noteq> None"
    by (simp add: plain_names_def)
  have ev: "listed_items (processInBatches plain_names [1, 2, 3] (in_turn counting) (Some 2)
                            (Some changeHeadline) 0) = Some ([1, 3], [2])"
    by code_simp
  have c2: "0 < (2::int)" by simp
  let ?L = "[Inr \<lparr>r_success = None, r_item = None :: nat option, r_data = 10 :: nat\<rparr>,
             Inl IOFailure, Inr \<lparr>r_success = None, r_item = None, r_data = 30\<rparr>]"
  from processInBatches_partition [of 2 "in_turn counting" "Some changeHeadline" "[1, 2, 3]" 0
         plain_names, OF c2 wf quiet named, unfolded sw fst_conv snd_conv]
  obtain acc es where
    run: "processInBatches plain_names [1, 2, 3] (in_turn counting) (Some 2) (Some changeHeadline) 0 =
            Some (Inr acc, 3)"
    and len: "length es = length [1, 2, 3 :: nat]"
    and s: "successes acc = filter e_success es"
    and e: "errors acc = filter (\<lambda>e. \<not> e_success e) es"
    and thrown: "\<forall>i < length [1, 2, 3 :: nat]. \<forall>e. ?L ! i = Inl e \<longrightarrow>
          e_item (es ! i) = [1, 2, 3] ! i \<and> e_error (es ! i) = Some e \<and> \<not> e_success (es ! i) \<and>
          es ! i \<in> set (errors acc) \<and> es ! i \<notin> set (successes acc)"
    and returned: "\<forall>i < length [1, 2, 3 :: nat]. \<forall>r. ?L ! i = Inr r \<longrightarrow>
          e_success (es ! i) = (r_success r \<noteq> Some False) \<and>
          e_item (es ! i) = (case r_item r of None \<Rightarrow> [1, 2, 3] ! i | Some y \<Rightarrow> y) \<and>
          e_data (es ! i) = Some (r_data r) \<and> e_error (es ! i) = None \<and>
          (es ! i \<in> set (successes acc) \<longleftrightarrow> e_success (es ! i)) \<and>
          (es ! i \<in> set (errors acc) \<longleftrightarrow> \<not> e_success (es ! i))"
    and cnt: "completed acc = length [1, 2, 3 :: nat]"
    and pr: "progress acc = map (\<lambda>k. (k, length [1, 2, 3 :: nat])) [1..<Suc (length [1, 2, 3 :: nat])]"
    by blast
  obtain a b c where es: "es = [a, b, c]"
    using len by (auto simp: length_Suc_conv)
  have a: "e_success a" "e_item a = 1" "e_data a = Some 10"
    using returned [rule_format, of 0] by (simp_all add: es)
  have b: "\<not> e_success b" "e_item b = 2" "e_error b = Some IOFailure"
    using thrown [rule_format, of 1] by (simp_all add: es)
  have c: "e_success c" "e_item c = 3" "e_data c = Some 30"
    using returned [rule_format, of 2] by (simp_all add: es)
  have "progress acc = [(1, 3), (2, 3), (3, 3)]"
    using pr by (simp add: upt_rec)
  then show ?thesis
    using run s e a b c cnt ev by (intro exI [of _ acc]) (simp add: es)
qed

text \<open>
  Where the claim fails. When the processor throws on a \<^verbatim>\<open>null\<close> item, the
  \<^verbatim>\<open>catch\<close> block throws in turn and the whole call is rejected: no lists are returned.
  And a result with an \<^verbatim>\<open>item\<close> key takes the place of the input item, which is then in
  neither list.
\<close>

theorem processInBatches_counterexample:
  "processInBatches object_names [None] (in_turn throwing) (Some 1) None () =
     Some (Inl JSTypeError, ()) \<and>
   listed_items (processInBatches plain_names [1] (in_turn renaming) (Some 1) None ()) =
     Some ([7], [])"
  by code_simp

section \<open>Tags and the sync record\<close>

lemma hasTag_upd_att [simp]:
  "hasTag (upd_att w a f) b t \<longleftrightarrow> (if b = a then t \<in> tags (f (w_atts w a)) else hasTag w b t)"
  by (simp add: hasTag_def upd_att_def)

lemma hasTag_upd_parent [simp]: "hasTag (upd_parent w p f) b t \<longleftrightarrow> hasTag w b t"
  by (simp add: hasTag_def upd_parent_def)

lemma w_atts_upd_parent [simp]: "w_atts (upd_parent w p f) = w_atts w"
  by (simp add: upd_parent_def)

lemma hasTag_addTabletTag:
  "hasTag (addTabletTag pr w a tag) b t \<longleftrightarrow>
     (if b = a
      then t \<in> insert tag (tags (w_atts w a)) -
             {if tag = tag_onTablet pr then tag_modified pr else tag_onTablet pr}
      else hasTag w b t)"
  by (auto simp: addTabletTag_def Let_def hasTag_def upd_att_def split: option.splits)

text \<open>
  Claim C9, as the code has it. When the two configured markers are different texts, a
  call of \<^verbatim>\<open>addTabletTag\<close> with one of them leaves the attachment with that marker and
  without the other: it carries exactly one of the two.
\<close>

theorem addTabletTag_exclusive:
  assumes "tag_onTablet pr \<noteq> tag_modified pr"
    and "tag = tag_onTablet pr \<or> tag = tag_modified pr"
  shows "hasTag (addTabletTag pr w a tag) a tag \<and>
         (hasTag (addTabletTag pr w a tag) a (tag_onTablet pr) \<noteq>
          hasTag (addTabletTag pr w a tag) a (tag_modified pr))"
  using assms by (auto simp: hasTag_addTabletTag)

theorem addTabletTag_exclusive_witness:
  "tag_onTablet sample_prefs \<noteq> tag_modified sample_prefs \<and>
   hasTag (addTabletTag sample_prefs (tracked_world 3) 0 ''_tablet_modified'') 0 ''_tablet_modified'' \<and>
   \<not> hasTag (addTabletTag sample_prefs (tracked_world 3) 0 ''_tablet_modified'') 0 ''_tablet''"
  using addTabletTag_exclusive [of sample_prefs "''_tablet_modified''" "tracked_world 3" 0]
  by (simp add: sample_prefs_def tag_onTablet_def tag_modified_def)

text \<open>
  With both markers set to the same text, \<^verbatim>\<open>addTabletTag\<close> adds the marker and takes
  it away again: the attachment ends with neither.
\<close>

theorem addTabletTag_same_marker_counterexample:
  "\<not> hasTag (addTabletTag same_tag_prefs empty_world 0 (tag_onTablet same_tag_prefs)) 0
       (tag_onTablet same_tag_prefs) \<and>
   \<not> hasTag (addTabletTag same_tag_prefs empty_world 0 (tag_onTablet same_tag_prefs)) 0
       (tag_modified same_tag_prefs)"
  by (simp add: hasTag_addTabletTag same_tag_prefs_def sample_prefs_def tag_onTablet_def
      tag_modified_def)

lemma getTabletInfo_location:
  "getTabletInfo pr w a = PRecord r \<Longrightarrow> truthy (location r) \<Longrightarrow>
     \<exists>s. location r = Str s \<and> s \<noteq> []"
  by (auto simp: getTabletInfo_def getTabletInfo_try_def Let_def
      split: if_splits option.splits data_attr.splits blob.splits parsed.splits jsval.splits
        sum.splits)

text \<open>
  Claim C7, as the code has it. No throw inside \<^verbatim>\<open>getTabletInfo\<close> reaches the caller:
  each one ends in \<^verbatim>\<open>null\<close>. The result is \<^verbatim>\<open>null\<close> exactly when the note is empty,
  the data element or its attribute is missing, the attribute is not JSON, it is JSON
  \<^verbatim>\<open>null\<close>, or the record's location is a truthy value that is no string. Any other
  parsed value is handed to the caller: a value that is no record as it is, a record
  with a falsy location as it is, and a record with a location string after the
  placeholder in it has been replaced by the configured root.
\<close>

theorem getTabletInfo_tolerant:
  "(\<forall>e. getTabletInfo_try pr (anote (w_atts w a)) = Inl e \<longrightarrow> getTabletInfo pr w a = PNull) \<and>
   (getTabletInfo pr w a = PNull \<longleftrightarrow>
      note_is_empty (anote (w_atts w a)) \<or>
      data_el (anote (w_atts w a)) = None \<or>
      data_el (anote (w_atts w a)) = Some NoData \<or>
      data_el (anote (w_atts w a)) = Some (Data Unparsable) \<or>
      data_el (anote (w_atts w a)) = Some (Data (Parsed PNull)) \<or>
      (\<exists>r. data_el (anote (w_atts w a)) = Some (Data (Parsed (PRecord r))) \<and>
           truthy (location r) \<and> (\<forall>s. location r \<noteq> Str s))) \<and>
   (\<not> note_is_empty (anote (w_atts w a)) \<longrightarrow>
      (\<forall>b. data_el (anote (w_atts w a)) = Some (Data (Parsed (POther b))) \<longrightarrow>
           getTabletInfo pr w a = POther b) \<and>
      (\<forall>r. data_el (anote (w_atts w a)) = Some (Data (Parsed (PRecord r))) \<and>
           \<not> truthy (location r) \<longrightarrow> getTabletInfo pr w a = PRecord r) \<and>
      (\<forall>r s. data_el (anote (w_atts w a)) = Some (Data (Parsed (PRecord r))) \<and>
           location r = Str s \<and> s \<noteq> [] \<longrightarrow>
           getTabletInfo pr w a =
             PRecord (r\<lparr>location :=
               Str (js_replace s ''[BaseFolder]'' (strip_trailing_sep (destDir pr)))\<rparr>)))"
proof -
  have null: "(\<forall>e. getTabletInfo_try pr (anote (w_atts w a)) = Inl e \<longrightarrow> getTabletInfo pr w a = PNull) \<and>
   (getTabletInfo pr w a = PNull \<longleftrightarrow>
      note_is_empty (anote (w_atts w a)) \<or>
      data_el (anote (w_atts w a)) = None \<or>
      data_el (anote (w_atts w a)) = Some NoData \<or>
      data_el (anote (w_atts w a)) = Some (Data Unparsable) \<or>
      data_el (anote (w_atts w a)) = Some (Data (Parsed PNull)) \<or>
      (\<exists>r. data_el (anote (w_atts w a)) = Some (Data (Parsed (PRecord r))) \<and>
           truthy (location r) \<and> (\<forall>s. location r \<noteq> Str s)))"
    by (auto simp: getTabletInfo_def getTabletInfo_try_def Let_def note_is_empty_def
        split: if_splits option.splits data_attr.splits blob.splits parsed.splits jsval.splits
          sum.splits)
  have through: "\<not> note_is_empty (anote (w_atts w a)) \<longrightarrow>
      (\<forall>b. data_el (anote (w_atts w a)) = Some (Data (Parsed (POther b))) \<longrightarrow>
           getTabletInfo pr w a = POther b) \<and>
      (\<forall>r. data_el (anote (w_atts w a)) = Some (Data (Parsed (PRecord r))) \<and>
           \<not> truthy (location r) \<longrightarrow> getTabletInfo pr w a = PRecord r) \<and>
      (\<forall>r s. data_el (anote (w_atts w a)) = Some (Data (Parsed (PRecord r))) \<and>
           location r = Str s \<and> s \<noteq> [] \<longrightarrow>
           getTabletInfo pr w a =
             PRecord (r\<lparr>location :=
               Str (js_replace s ''[BaseFolder]'' (strip_trailing_sep (destDir pr)))\<rparr>))"
    by (simp add: getTabletInfo_def getTabletInfo_try_def Let_def)
  show ?thesis using null through by blast
qed

theorem getTabletInfo_tolerant_witness:
  "getTabletInfo_try sample_prefs (anote (w_atts corrupt_blob_world 0)) = Inl JSONSyntaxError \<and>
   getTabletInfo sample_prefs corrupt_blob_world 0 = PNull"
  using getTabletInfo_tolerant [of sample_prefs corrupt_blob_world 0]
  by (simp add: corrupt_blob_world_def empty_world_def blank_attachment_def
      getTabletInfo_try_def)

text \<open>
  A blob that is valid JSON but no record, such as an array, is not treated as absent:
  the caller gets the value itself.
\<close>

theorem getTabletInfo_malformed_counterexample:
  "getTabletInfo sample_prefs array_blob_world 0 = POther True \<and>
   getTabletInfo sample_prefs array_blob_world 0 \<noteq> PNull"
  by (simp add: getTabletInfo_def getTabletInfo_try_def array_blob_world_def empty_world_def
      blank_attachment_def note_is_empty_def)

text \<open>
  Claim C6. \<^verbatim>\<open>isModified\<close> returns, and it returns true exactly when the attachment is
  tracked, its sync record is there with a location, something exists at that location,
  and the modification time observed there is greater than the recorded \<^verbatim>\<open>lastmod\<close>.
\<close>

theorem isModified_iff:
  "isModified pr w a =
     Inr (isOnTablet pr w a \<and>
          (\<exists>r loc t. getTabletInfo pr w a = PRecord r \<and> location r = Str loc \<and> loc \<noteq> [] \<and>
              fileExists (w_fs w) loc \<and> lastmod r = Some t \<and> t < getFileModTime (w_fs w) loc))"
proof (cases "getTabletInfo pr w a")
  case PNull
  then show ?thesis by (simp add: isModified_def)
next
  case (POther b)
  then show ?thesis by (simp add: isModified_def)
next
  case (PRecord r)
  show ?thesis
  proof (cases "truthy (location r)")
    case False
    then show ?thesis using PRecord by (auto simp: isModified_def)
  next
    case True
    then obtain s where "location r = Str s" "s \<noteq> []"
      using getTabletInfo_location [OF PRecord] by blast
    then show ?thesis using PRecord by (auto simp: isModified_def split: option.splits)
  qed
qed


theorem isModified_iff_witness:
  "isModified sample_prefs (tracked_world 3) 0 = Inr True \<and>
   isOnTablet sample_prefs (tracked_world 3) 0 \<and>
   fileExists (w_fs (tracked_world 3)) ''/mnt/tablet/a.pdf'' \<and>
   (5::int) < getFileModTime (w_fs (tracked_world 3)) ''/mnt/tablet/a.pdf''"
proof -
  have info: "getTabletInfo sample_prefs (tracked_world 3) 0 =
                PRecord (copy_record\<lparr>location := Str ''/mnt/tablet/a.pdf''\<rparr>)"
    by (simp add: getTabletInfo_def getTabletInfo_try_def tracked_world_def
        tracked_attachment_def blank_attachment_def note_is_empty_def copy_record_def
        sample_prefs_def js_replace_def strip_trailing_sep_def)
  have ex: "fileExists (w_fs (tracked_world 3)) ''/mnt/tablet/a.pdf''"
    by (simp add: fileExists_def lookup_def tracked_world_def)
  have mt: "getFileModTime (w_fs (tracked_world 3)) ''/mnt/tablet/a.pdf'' = 10"
    by (simp add: getFileModTime_unfold lookup_def tracked_world_def)
  have on: "isOnTablet sample_prefs (tracked_world 3) 0"
    by (simp add: isOnTablet_def hasTag_def tracked_world_def tracked_attachment_def
        blank_attachment_def tag_onTablet_def sample_prefs_def)
  show ?thesis
    using isModified_iff [of sample_prefs "tracked_world 3" 0]
    by (simp add: info ex mt on copy_record_def)
qed

section \<open>Checking twice changes nothing the second time\<close>

lemma isModified_Inr: "isModified pr w a = Inr (isModified pr w a = Inr True)"
proof -
  have "\<exists>b. isModified pr w a = Inr b"
  proof (cases "truthy (info_location (getTabletInfo pr w a))")
    case False
    then show ?thesis by (auto simp: isModified_def)
  next
    case True
    then obtain r where r: "getTabletInfo pr w a = PRecord r"
      by (cases "getTabletInfo pr w a") simp_all
    then obtain s where "location r = Str s" using True getTabletInfo_location [OF r] by auto
    then show ?thesis using r by (auto simp: isModified_def Let_def split: option.splits)
  qed
  then show ?thesis by auto
qed

lemma checkMod_readonly:
  "\<exists>r. checkMod pr a w = (r, w) \<and> run_one nm a r = Inr (check_entry pr w a)"
proof -
  obtain m where m: "isModified pr w a = Inr m" using isModified_Inr by metis
  show ?thesis
    by (auto simp: run_one_def checkMod_def check_entry_def m Let_def)
qed

lemma run_chunk_checkMod:
  "run_chunk nm (in_turn (checkMod pr)) xs w = (Inr (map (check_entry pr w) xs), w)"
proof (induction xs)
  case Nil
  show ?case by (simp add: run_chunk_in_turn_Nil)
next
  case (Cons a xs)
  obtain r where "checkMod pr a w = (r, w)" and "run_one nm a r = Inr (check_entry pr w a)"
    using checkMod_readonly by blast
  then show ?case by (simp add: run_chunk_in_turn_Cons Cons)
qed

lemma no_callback_quiet: "\<forall>k. effective_onProgress None k n = None"
  by (simp add: effective_onProgress_def)

lemma changeHeadline_quiet: "\<forall>k. effective_onProgress (Some changeHeadline) k n = None"
  by (simp add: effective_onProgress_def changeHeadline_def)

lemma addTabletTag_fs [simp]: "w_fs (addTabletTag pr w a t) = w_fs w"
  by (simp add: addTabletTag_def Let_def upd_att_def upd_parent_def split: option.splits)

lemma addTabletTag_anote [simp]: "anote (w_atts (addTabletTag pr w a t) b) = anote (w_atts w b)"
  by (simp add: addTabletTag_def Let_def upd_att_def upd_parent_def split: option.splits)

lemma retag_idem: "retag pr t (retag pr t S) = retag pr t S"
  by (auto simp: retag_def)

lemma addTabletTag_tags:
  "tags (w_atts (addTabletTag pr w a t) b) =
     (if b = a then retag pr t (tags (w_atts w a)) else tags (w_atts w b))"
  by (simp add: addTabletTag_def Let_def upd_att_def retag_def split: option.splits)


declare apply_checks.simps(2) [simp del]

lemma apply_checks_skip:
  assumes "target pr w0 x = None"
  shows "apply_checks pr (check_entry pr w0 x # rs) (w, n, cs) = apply_checks pr rs (w, n, cs)"
proof -
  have "(isModified pr w0 x = Inr True) = hasTag w0 x (tag_modified pr)"
    using assms by (auto simp: target_def split: if_splits)
  then show ?thesis
    by (simp add: check_entry_def apply_checks.simps(2))
qed

lemma apply_checks_step:
  assumes "target pr w0 x = Some t"
  shows "apply_checks pr (check_entry pr w0 x # rs) (w, n, cs) =
           apply_checks pr rs (addTabletTag pr w x t,
             (if isModified pr w0 x = Inr True then n + 1 else n), cs @ [(x, t)])"
proof (cases "isModified pr w0 x = Inr True")
  case True
  then have "\<not> hasTag w0 x (tag_modified pr)" "t = tag_modified pr"
    using assms by (auto simp: target_def split: if_splits)
  then show ?thesis using True
    by (simp add: check_entry_def apply_checks.simps(2))
next
  case False
  then have "hasTag w0 x (tag_modified pr)" "t = tag_onTablet pr"
    using assms by (auto simp: target_def split: if_splits)
  then show ?thesis using False
    by (simp add: check_entry_def apply_checks.simps(2))
qed

lemma apply_checks_fs:
  "w_fs (fst (apply_checks pr (map (check_entry pr w0) xs) (w, n, cs))) = w_fs w"
proof (induction xs arbitrary: w n cs)
  case Nil
  show ?case by simp
next
  case (Cons x xs)
  show ?case
  proof (cases "target pr w0 x")
    case None
    then show ?thesis by (simp add: apply_checks_skip Cons.IH)
  next
    case (Some t)
    then show ?thesis by (simp add: apply_checks_step Cons.IH)
  qed
qed

lemma apply_checks_anote:
  "anote (w_atts (fst (apply_checks pr (map (check_entry pr w0) xs) (w, n, cs))) b) =
     anote (w_atts w b)"
proof (induction xs arbitrary: w n cs)
  case Nil
  show ?case by simp
next
  case (Cons x xs)
  show ?case
  proof (cases "target pr w0 x")
    case None
    then show ?thesis by (simp add: apply_checks_skip Cons.IH)
  next
    case (Some t)
    then show ?thesis by (simp add: apply_checks_step Cons.IH)
  qed
qed

lemma apply_checks_tags:
  "tags (w_atts (fst (apply_checks pr (map (check_entry pr w0) xs) (w, n, cs))) b) =
     (if b \<in> set xs \<and> target pr w0 b \<noteq> None
      then retag pr (the (target pr w0 b)) (tags (w_atts w b))
      else tags (w_atts w b))"
proof (induction xs arbitrary: w n cs)
  case Nil
  show ?case by simp
next
  case (Cons x xs)
  show ?case
  proof (cases "target pr w0 x")
    case None
    have "tags (w_atts (fst (apply_checks pr (map (check_entry pr w0) (x # xs)) (w, n, cs))) b) =
          tags (w_atts (fst (apply_checks pr (map (check_entry pr w0) xs) (w, n, cs))) b)"
      using None by (simp add: apply_checks_skip)
    also have "\<dots> = (if b \<in> set xs \<and> target pr w0 b \<noteq> None
                     then retag pr (the (target pr w0 b)) (tags (w_atts w b))
                     else tags (w_atts w b))"
      by (rule Cons.IH)
    also have "\<dots> = (if b \<in> set (x # xs) \<and> target pr w0 b \<noteq> None
                     then retag pr (the (target pr w0 b)) (tags (w_atts w b))
                     else tags (w_atts w b))"
      using None by auto
    finally show ?thesis .
  next
    case (Some t)
    let ?w1 = "addTabletTag pr w x t"
    let ?n1 = "if isModified pr w0 x = Inr True then n + 1 else n"
    have "tags (w_atts (fst (apply_checks pr (map (check_entry pr w0) (x # xs)) (w, n, cs))) b) =
          tags (w_atts (fst (apply_checks pr (map (check_entry pr w0) xs)
                  (?w1, ?n1, cs @ [(x, t)]))) b)"
      using Some by (simp add: apply_checks_step)
    also have "\<dots> = (if b \<in> set xs \<and> target pr w0 b \<noteq> None
                     then retag pr (the (target pr w0 b)) (tags (w_atts ?w1 b))
                     else tags (w_atts ?w1 b))"
      by (rule Cons.IH)
    also have "\<dots> = (if b \<in> set (x # xs) \<and> target pr w0 b \<noteq> None
                     then retag pr (the (target pr w0 b)) (tags (w_atts w b))
                     else tags (w_atts w b))"
    proof (cases "b = x")
      case True
      then show ?thesis using Some by (simp add: addTabletTag_tags retag_idem)
    next
      case False
      then show ?thesis by (auto simp: addTabletTag_tags)
    qed
    finally show ?thesis .
  qed
qed

lemma apply_checks_noop:
  "\<forall>x \<in> set xs. target pr w0 x = None \<Longrightarrow>
     apply_checks pr (map (check_entry pr w0) xs) (w, n, cs) = (w, n, cs)"
proof (induction xs)
  case Nil
  show ?case by simp
next
  case (Cons x xs)
  then show ?case by (simp add: apply_checks_skip)
qed


lemma isModified_cong:
  assumes "w_fs w1 = w_fs w" and "anote (w_atts w1 a) = anote (w_atts w a)"
    and "isOnTablet pr w1 a = isOnTablet pr w a"
  shows "isModified pr w1 a = isModified pr w a"
proof -
  have g: "getTabletInfo pr w1 a = getTabletInfo pr w a"
    using assms(2) by (simp add: getTabletInfo_def)
  show ?thesis unfolding isModified_def g assms(1) assms(3) ..
qed

lemma isModified_untracked: "\<not> isOnTablet pr w a \<Longrightarrow> isModified pr w a = Inr False"
  by (simp add: isModified_def)

lemma settled_after_pass:
  assumes fs: "w_fs w1 = w_fs w"
    and an: "anote (w_atts w1 a) = anote (w_atts w a)"
    and tg: "tags (w_atts w1 a) =
              (if isOnTablet pr w a \<and> target pr w a \<noteq> None
               then retag pr (the (target pr w a)) (tags (w_atts w a))
               else tags (w_atts w a))"
    and on1: "isOnTablet pr w1 a"
  shows "target pr w1 a = None"
proof (cases "isOnTablet pr w a \<and> target pr w a \<noteq> None")
  case False
  then have same: "tags (w_atts w1 a) = tags (w_atts w a)" using tg by auto
  then have on: "isOnTablet pr w1 a = isOnTablet pr w a" by (simp add: isOnTablet_def hasTag_def)
  have m: "isModified pr w1 a = isModified pr w a" using isModified_cong [OF fs an on] .
  have "target pr w1 a = target pr w a"
    by (simp add: target_def m hasTag_def same)
  moreover have "isOnTablet pr w a" using on on1 by simp
  ultimately show ?thesis using False by simp
next
  case True
  then obtain t where t: "target pr w a = Some t" and on: "isOnTablet pr w a" by auto
  have tags1: "tags (w_atts w1 a) = retag pr t (tags (w_atts w a))" using tg True t by simp
  show ?thesis
  proof (cases "isModified pr w a = Inr True")
    case mod: True
    then have nh: "\<not> hasTag w a (tag_modified pr)" and tm: "t = tag_modified pr"
      using t by (auto simp: target_def split: if_splits)
    have ne: "tag_onTablet pr \<noteq> tag_modified pr"
      using on nh by (auto simp: isOnTablet_def)
    have h1: "hasTag w1 a (tag_modified pr)"
      using ne by (simp add: hasTag_def tags1 tm retag_def)
    then have on1': "isOnTablet pr w1 a = isOnTablet pr w a" using on by (simp add: isOnTablet_def)
    have "isModified pr w1 a = Inr True" using isModified_cong [OF fs an on1'] mod by simp
    then show ?thesis using h1 by (simp add: target_def)
  next
    case nmod: False
    then have h: "hasTag w a (tag_modified pr)" and tm: "t = tag_onTablet pr"
      using t by (auto simp: target_def split: if_splits)
    have h1: "\<not> hasTag w1 a (tag_modified pr)"
      by (simp add: hasTag_def tags1 tm retag_def)
    have on1': "isOnTablet pr w1 a = isOnTablet pr w a" using on on1 by simp
    have "isModified pr w1 a = isModified pr w a" using isModified_cong [OF fs an on1'] .
    then have "isModified pr w1 a \<noteq> Inr True" using nmod by simp
    then show ?thesis using h1 by (simp add: target_def)
  qed
qed


lemma checkModifications_unfold:
  "checkModifications pr w atts =
     (if filter (isOnTablet pr w) atts = [] then Some (Inr (0, w, []))
      else case apply_checks pr (map (check_entry pr w) (filter (isOnTablet pr w) atts)) (w, 0, []) of
             (w2, n, calls) \<Rightarrow> Some (Inr (n, w2, calls)))"
proof -
  have s: "filter e_success (map (check_entry pr w) xs) = map (check_entry pr w) xs" for xs
    by (induction xs) (simp_all add: check_entry_def)
  have c: "(0::int) < 3" by simp
  show ?thesis
    unfolding checkModifications_def Let_def
    by (simp add: processInBatches_in_turn [OF c no_callback_quiet run_chunk_checkMod] s)
qed

text \<open>
  Claim C5. \<^verbatim>\<open>checkModifications\<close> returns; and run again on the state it leaves, with
  the file system and the sync records as they were, it performs no tag update, changes
  nothing and reports zero newly modified files.
\<close>

theorem checkModifications_idempotent:
  "\<exists>n w1 calls. checkModifications pr w atts = Some (Inr (n, w1, calls)) \<and>
                 checkModifications pr w1 atts = Some (Inr (0, w1, []))"
proof (cases "filter (isOnTablet pr w) atts = []")
  case True
  then have "checkModifications pr w atts = Some (Inr (0, w, []))"
    by (simp add: checkModifications_unfold)
  then show ?thesis by blast
next
  case False
  let ?ta = "filter (isOnTablet pr w) atts"
  obtain w1 n calls where ac: "apply_checks pr (map (check_entry pr w) ?ta) (w, 0, []) = (w1, n, calls)"
    by (cases "apply_checks pr (map (check_entry pr w) ?ta) (w, 0, [])")
  have first: "checkModifications pr w atts = Some (Inr (n, w1, calls))"
    using False ac by (simp add: checkModifications_unfold)
  have w1: "w1 = fst (apply_checks pr (map (check_entry pr w) ?ta) (w, 0, []))" using ac by simp
  have fs: "w_fs w1 = w_fs w" unfolding w1 by (rule apply_checks_fs)
  have an: "anote (w_atts w1 a) = anote (w_atts w a)" for a unfolding w1 by (rule apply_checks_anote)
  have settled: "target pr w1 a = None" if a: "a \<in> set atts" and on1: "isOnTablet pr w1 a" for a
  proof -
    have "tags (w_atts w1 a) =
            (if a \<in> set ?ta \<and> target pr w a \<noteq> None
             then retag pr (the (target pr w a)) (tags (w_atts w a))
             else tags (w_atts w a))"
      unfolding w1 by (rule apply_checks_tags)
    then have "tags (w_atts w1 a) =
            (if isOnTablet pr w a \<and> target pr w a \<noteq> None
             then retag pr (the (target pr w a)) (tags (w_atts w a))
             else tags (w_atts w a))"
      using a by simp
    from settled_after_pass [OF fs an this on1] show ?thesis .
  qed
  have "checkModifications pr w1 atts = Some (Inr (0, w1, []))"
  proof (cases "filter (isOnTablet pr w1) atts = []")
    case True
    then show ?thesis by (simp add: checkModifications_unfold)
  next
    case F: False
    have "\<forall>x \<in> set (filter (isOnTablet pr w1) atts). target pr w1 x = None"
      using settled by simp
    from apply_checks_noop [OF this] show ?thesis
      using F by (simp add: checkModifications_unfold)
  qed
  with first show ?thesis by blast
qed


lemma tracked_world_modified: "isModified sample_prefs (tracked_world 3) 0 = Inr True"
proof -
  have info: "getTabletInfo sample_prefs (tracked_world 3) 0 =
                PRecord (copy_record\<lparr>location := Str ''/mnt/tablet/a.pdf''\<rparr>)"
    by (simp add: getTabletInfo_def getTabletInfo_try_def tracked_world_def
        tracked_attachment_def blank_attachment_def note_is_empty_def copy_record_def
        sample_prefs_def js_replace_def strip_trailing_sep_def)
  have ex: "fileExists (w_fs (tracked_world 3)) ''/mnt/tablet/a.pdf''"
    by (simp add: fileExists_def lookup_def tracked_world_def)
  have mt: "getFileModTime (w_fs (tracked_world 3)) ''/mnt/tablet/a.pdf'' = 10"
    by (simp add: getFileModTime_unfold lookup_def tracked_world_def)
  have on: "isOnTablet sample_prefs (tracked_world 3) 0"
    by (simp add: isOnTablet_def hasTag_def tracked_world_def tracked_attachment_def
        blank_attachment_def tag_onTablet_def sample_prefs_def)
  show ?thesis
    by (simp add: isModified_def info ex mt on copy_record_def)
qed

theorem checkModifications_idempotent_witness:
  "\<exists>w1. checkModifications sample_prefs (tracked_world 3) [0] =
           Some (Inr (1, w1, [(0, ''_tablet_modified'')])) \<and>
        checkModifications sample_prefs w1 [0] = Some (Inr (0, w1, []))"
proof -
  have on: "isOnTablet sample_prefs (tracked_world 3) 0"
    by (simp add: isOnTablet_def hasTag_def tracked_world_def tracked_attachment_def
        blank_attachment_def tag_onTablet_def sample_prefs_def)
  have nh: "\<not> hasTag (tracked_world 3) 0 (tag_modified sample_prefs)"
    by (simp add: hasTag_def tracked_world_def tracked_attachment_def blank_attachment_def
        tag_modified_def sample_prefs_def)
  have tg: "target sample_prefs (tracked_world 3) 0 = Some (tag_modified sample_prefs)"
    by (simp add: target_def tracked_world_modified nh)
  have tm: "tag_modified sample_prefs = ''_tablet_modified''"
    by (simp add: tag_modified_def sample_prefs_def)
  have ev: "checkModifications sample_prefs (tracked_world 3) [0] =
              Some (Inr (1, addTabletTag sample_prefs (tracked_world 3) 0 ''_tablet_modified'',
                         [(0, ''_tablet_modified'')]))"
    using on by (simp add: checkModifications_unfold apply_checks_step [OF tg]
        tracked_world_modified tm)
  from checkModifications_idempotent [of sample_prefs "tracked_world 3" "[0]"]
  show ?thesis unfolding ev by auto
qed


section \<open>The retrieve pass, step by step\<close>

lemma getTabletFilePath_returns: "\<exists>p. getTabletFilePath pr w a = Inr p"
proof (cases "truthy (info_location (getTabletInfo pr w a))")
  case False
  then show ?thesis by (auto simp: getTabletFilePath_def Let_def)
next
  case True
  then obtain r where r: "getTabletInfo pr w a = PRecord r"
    by (cases "getTabletInfo pr w a") simp_all
  then obtain s where "location r = Str s" using True getTabletInfo_location [OF r] by auto
  then show ?thesis using r by (auto simp: getTabletFilePath_def Let_def)
qed

lemma gatherInfo_readonly:
  "gatherInfo pr a w = (Inr \<lparr>r_success = None, r_item = None, r_data = gather_of pr w a\<rparr>, w)"
proof -
  obtain p where p: "getTabletFilePath pr w a = Inr p" using getTabletFilePath_returns by blast
  show ?thesis
    unfolding gather_of_def
    by (auto simp: gatherInfo_def Let_def p split: option.splits)
qed

lemma run_chunk_gatherInfo:
  "run_chunk nm (in_turn (gatherInfo pr)) xs w = (Inr (map (gather_entry pr w) xs), w)"
  by (induction xs)
     (simp_all add: run_chunk_in_turn_Nil run_chunk_in_turn_Cons run_one_def gatherInfo_readonly
        gather_entry_def)

lemma run_chunk_named:
  assumes "\<forall>x. nm x \<noteq> None"
  shows "\<exists>es. run_chunk nm (in_turn f) xs st = (Inr es, snd (in_turn f xs st))"
proof (induction xs arbitrary: st)
  case Nil
  show ?case by (simp add: run_chunk_in_turn_Nil)
next
  case (Cons x xs)
  obtain r st1 where f: "f x st = (r, st1)" by (cases "f x st")
  obtain es where rc: "run_chunk nm (in_turn f) xs st1 = (Inr es, snd (in_turn f xs st1))"
    using Cons by blast
  obtain e where e: "run_one nm x r = Inr e"
    using run_one_fulfilled [of r nm x] assms by auto
  show ?case
    by (simp add: run_chunk_in_turn_Cons f rc e split: prod.splits)
qed

lemma pending_of_map:
  "map g_attachment (pending_of (map (gather_of pr w) xs)) = filter (retrievable pr w) xs"
proof (induction xs)
  case Nil
  show ?case by simp
next
  case (Cons x xs)
  have att: "g_attachment g = x" if "gather_of pr w x = Gathered g" for g
    using that unfolding gather_of_def
    by (auto simp: gatherInfo_def Let_def split: if_splits sum.splits option.splits)
  show ?case
    by (cases "gather_of pr w x") (auto simp: Cons.IH retrievable_def att)
qed

lemma separate_closed:
  "separate rs (tp, tc, cf) = (tp @ pending_of rs, tc @ missing_of rs, cf @ conflicts_of rs)"
  by (induction rs "(tp, tc, cf)" arbitrary: tp tc cf rule: separate.induct) auto

lemma conflicts_of_map:
  "map g_attachment (conflicts_of (map (gather_of pr w) xs)) = filter (has_conflict pr w) xs"
proof (induction xs)
  case Nil
  show ?case by simp
next
  case (Cons x xs)
  have att: "g_attachment g = x" if "gather_of pr w x = Gathered g" for g
    using that unfolding gather_of_def
    by (auto simp: gatherInfo_def Let_def split: if_splits sum.splits option.splits)
  show ?case
    by (cases "gather_of pr w x") (auto simp: Cons.IH has_conflict_def att)
qed


lemma map_filter_gather_entry:
  "List.map_filter e_data (map (gather_entry pr w) xs) = map (gather_of pr w) xs"
  by (induction xs) (simp_all add: List.map_filter_simps gather_entry_def)

lemma filter_success_gather_entry:
  "filter e_success (map (gather_entry pr w) xs) = map (gather_entry pr w) xs"
  by (induction xs) (simp_all add: gather_entry_def)

lemma filter_failure_gather_entry:
  "filter (\<lambda>e. \<not> e_success e) (map (gather_entry pr w) xs) = []"
  by (induction xs) (simp_all add: gather_entry_def)

lemma getFromTablet_unfold:
  "getFromTablet user pr w atts =
     (if filter (isOnTablet pr w) atts = [] then
        Some (Inr \<lparr>o_world = w, o_prompted = [], o_applied = [], o_retrieved = 0,
                   o_errors = 0, o_toSaveDB = [], o_toExtract = []\<rparr>)
      else
        (case resolve_conflicts user 0
                (conflicts_of (map (gather_of pr w) (filter (isOnTablet pr w) atts)))
                (pending_of (map (gather_of pr w) (filter (isOnTablet pr w) atts)), []) of
           (toProcess, asked) \<Rightarrow>
             Some (finish_get pr (map (gather_of pr w) (filter (isOnTablet pr w) atts))
                     toProcess asked w)))"
proof (cases "filter (isOnTablet pr w) atts = []")
  case True
  then show ?thesis by (simp add: getFromTablet_def Let_def)
next
  case False
  let ?ta = "filter (isOnTablet pr w) atts"
  let ?rs = "map (gather_of pr w) ?ta"
  have c: "(0::int) < 3" by simp
  have gather: "processInBatches (\<lambda>a. Some (attachmentFilename (w_atts w a), [])) ?ta
                  (in_turn (gatherInfo pr)) (Some 3) (Some changeHeadline) w =
                Some (Inr \<lparr>successes = map (gather_entry pr w) ?ta, errors = [],
                           completed = length ?ta,
                           progress = map (\<lambda>k. (k, length ?ta)) [1..<Suc (length ?ta)]\<rparr>, w)"
    by (simp add: processInBatches_in_turn [OF c changeHeadline_quiet run_chunk_gatherInfo]
        filter_success_gather_entry filter_failure_gather_entry del: upt_Suc)
  obtain tp asked where rc: "resolve_conflicts user 0 (conflicts_of ?rs) (pending_of ?rs, []) =
                               (tp, asked)"
    by (cases "resolve_conflicts user 0 (conflicts_of ?rs) (pending_of ?rs, [])")
  obtain es where ch: "run_chunk (\<lambda>g. Some ([], [])) (in_turn (get_processFile pr)) tp w =
                         (Inr es, snd (in_turn (get_processFile pr) tp w))"
    using run_chunk_named [of "\<lambda>g. Some ([], [])" "get_processFile pr" tp w] by auto
  have appl: "processInBatches (\<lambda>g. Some ([], [])) tp (in_turn (get_processFile pr)) (Some 3)
                 (Some changeHeadline) w =
               Some (Inr \<lparr>successes = filter e_success es,
                          errors = filter (\<lambda>e. \<not> e_success e) es,
                          completed = length tp,
                          progress = map (\<lambda>k. (k, length tp)) [1..<Suc (length tp)]\<rparr>,
                     snd (in_turn (get_processFile pr) tp w))"
    by (rule processInBatches_in_turn [OF c changeHeadline_quiet ch])
  show ?thesis
    unfolding getFromTablet_def Let_def
    using False
    by (simp add: gather map_filter_gather_entry separate_closed rc appl finish_get_def ch
        split: prod.splits del: upt_Suc)
qed

lemma finish_get_returns:
  "\<exists>out. finish_get pr rs tp asked w = Inr out \<and> o_prompted out = asked \<and>
         o_applied out = map g_attachment tp"
proof -
  obtain es where ch: "run_chunk (\<lambda>g. Some ([], [])) (in_turn (get_processFile pr)) tp w =
                         (Inr es, snd (in_turn (get_processFile pr) tp w))"
    using run_chunk_named [of "\<lambda>g. Some ([], [])" "get_processFile pr" tp w] by auto
  show ?thesis
    by (simp add: finish_get_def ch split: prod.splits)
qed


lemma getFromTablet_returns: "\<exists>out. getFromTablet user pr w atts = Some (Inr out)"
proof -
  let ?rs = "map (gather_of pr w) (filter (isOnTablet pr w) atts)"
  let ?R = "resolve_conflicts user 0 (conflicts_of ?rs) (pending_of ?rs, [])"
  show ?thesis
    using finish_get_returns [of pr ?rs "fst ?R" "snd ?R" w]
    by (auto simp: getFromTablet_unfold split: prod.splits)
qed

lemma resolve_all_cancel:
  "\<forall>k a. resolveConflict (user k a) = Cancel \<Longrightarrow>
     fst (resolve_conflicts user k cs (tp, asked)) = tp"
  by (induction cs arbitrary: k tp asked) simp_all

lemma has_conflict_copy_mode:
  assumes "info_mode (getTabletInfo pr w a) = Some MODE_BACKGROUND"
  shows "has_conflict pr w a \<longleftrightarrow>
           (\<exists>r loc. getTabletInfo pr w a = PRecord r \<and> location r = Str loc \<and> loc \<noteq> [] \<and>
              fileExists (w_fs w) loc \<and>
              saved_time r < getFileModTime (w_fs w) loc \<and> saved_time r < internal_mtime w a)"
proof -
  obtain r where r: "getTabletInfo pr w a = PRecord r" and m: "mode r = Some MODE_BACKGROUND"
    using assms by (cases "getTabletInfo pr w a") simp_all
  have nf: "mode r \<noteq> Some MODE_FOREGROUND"
    using m by (simp add: MODE_BACKGROUND_def MODE_FOREGROUND_def)
  show ?thesis
  proof (cases "truthy (location r)")
    case False
    then have "gather_of pr w a = SkipNoFile a"
      using r nf by (simp add: gather_of_def gatherInfo_def getTabletFilePath_def Let_def)
    then show ?thesis using False r by (auto simp: has_conflict_def)
  next
    case True
    then obtain loc where loc: "location r = Str loc" "loc \<noteq> []"
      using getTabletInfo_location [OF r] by auto
    show ?thesis
    proof (cases "fileExists (w_fs w) loc")
      case False
      then have "gather_of pr w a = SkipNoFile a"
        using r nf loc by (simp add: gather_of_def gatherInfo_def getTabletFilePath_def Let_def)
      then show ?thesis using False r loc by (auto simp: has_conflict_def)
    next
      case ex: True
      have tp: "getTabletFilePath pr w a = Inr (Some loc)"
        using r nf loc ex by (simp add: getTabletFilePath_def Let_def)
      have "has_conflict pr w a \<longleftrightarrow>
              saved_time r < getFileModTime (w_fs w) loc \<and> saved_time r < internal_mtime w a"
        using r loc
        by (simp add: has_conflict_def gather_of_def gatherInfo_def tp Let_def saved_time_def
            internal_mtime_def)
      then show ?thesis using r loc ex by auto
    qed
  qed
qed

lemma count_filter_distinct:
  "distinct xs \<Longrightarrow> a \<in> set xs \<Longrightarrow> P a \<Longrightarrow> count_list (filter P xs) a = 1"
  by (induction xs) (auto simp: count_list_0_iff)

lemma has_hidden_append: "has_hidden (xs @ CHR ''/'' # CHR ''.'' # ys)"
proof (induction xs)
  case Nil
  show ?case by simp
next
  case (Cons x xs)
  then show ?case by (cases xs) auto
qed

lemma dir_prefix_slash: "\<exists>q. dir_prefix d = q @ ''/''"
proof (cases "d \<noteq> [] \<and> last d = CHR ''/''")
  case True
  then have "d = butlast d @ ''/''" by (metis append_butlast_last_id)
  then show ?thesis using True by (auto simp: dir_prefix_def)
next
  case False
  then show ?thesis by (auto simp: dir_prefix_def)
qed

lemma hidden_child_has_hidden:
  assumes "under d p" and "hidden (child_name d p)"
  shows "has_hidden p"
proof -
  obtain q where q: "dir_prefix d = q @ ''/''" using dir_prefix_slash by blast
  obtain r where r: "p = dir_prefix d @ r" using assms(1) by (auto simp: under_def prefix_def)
  have cn: "child_name d p = takeWhile (\<lambda>c. c \<noteq> CHR ''/'') r"
    by (simp add: child_name_def r)
  obtain r' where "r = CHR ''.'' # r'"
    using assms(2) unfolding cn hidden_def by (cases r) (auto split: if_splits)
  then have "p = q @ CHR ''/'' # CHR ''.'' # r'" using r q by simp
  then show ?thesis using has_hidden_append by simp
qed

lemma lookup_in_paths: "lookup fs p = Some f \<Longrightarrow> p \<in> set (all_paths fs)"
  by (auto simp: lookup_def all_paths_def dest: map_of_SomeD intro: rev_image_eqI)

lemma map_of_filter_under:
  "map_of (filter (\<lambda>(q, f). \<not> under d q) xs) p = (if under d p then None else map_of xs p)"
  by (induction xs) auto

lemma lookup_remove_tree:
  "lookup (remove_tree fs d) p = (if under d p then None else lookup fs p)"
  by (simp add: lookup_def remove_tree_def map_of_filter_under)

lemma removeEmptyDirs_keeps:
  "lookup fs p = Some f \<Longrightarrow> \<not> has_hidden p \<Longrightarrow> lookup (removeEmptyDirs fs d base) p = Some f"
proof (induction fs d base rule: removeEmptyDirs.induct)
  case (1 fs dirPath basePath)
  show ?case
  proof (cases "dirPath = [] \<or> dirPath = basePath \<or> \<not> isDirectory fs dirPath \<or>
                has_visible_entry fs dirPath")
    case True
    then show ?thesis using "1.prems" by (subst removeEmptyDirs.simps) auto
  next
    case False
    then have nv: "\<not> has_visible_entry fs dirPath" by simp
    have nu: "\<not> under dirPath p"
    proof
      assume u: "under dirPath p"
      have "p \<in> set (all_paths fs)" using "1.prems"(1) by (rule lookup_in_paths)
      then have "hidden (child_name dirPath p)" using nv u by (auto simp: has_visible_entry_def)
      then show False using hidden_child_has_hidden [OF u] "1.prems"(2) by simp
    qed
    then have keep: "lookup (remove_tree fs dirPath) p = Some f"
      using "1.prems"(1) by (simp add: lookup_remove_tree)
    show ?thesis
    proof (cases "getParentDir dirPath \<noteq> basePath")
      case True
      have "lookup (removeEmptyDirs (remove_tree fs dirPath) (getParentDir dirPath) basePath) p = Some f"
        using False True keep "1.prems"(2) by (intro "1.IH") auto
      then show ?thesis using False True by (subst removeEmptyDirs.simps) (simp add: Let_def)
    next
      case F: False
      then show ?thesis using False keep by (subst removeEmptyDirs.simps) (simp add: Let_def)
    qed
  qed
qed

lemma ensureDirectory_files: "ensureDirectory fs d = Inr fs1 \<Longrightarrow> lookup fs1 p = lookup fs p"
  by (auto simp: ensureDirectory_def lookup_def split: if_splits)

lemma removeFile_other: "p \<noteq> q \<Longrightarrow> lookup (removeFile fs q) p = lookup fs p"
  by (simp add: removeFile_def lookup_def delete_conv')

lemma IOUtils_copy_other:
  "IOUtils_copy fs s d = Inr fs' \<Longrightarrow> p \<noteq> d \<Longrightarrow> lookup fs' p = lookup fs p"
  by (auto simp: IOUtils_copy_def lookup_def update_conv' split: option.splits if_splits)

lemma IOUtils_move_other:
  "IOUtils_move fs s d = Inr fs' \<Longrightarrow> p \<noteq> d \<Longrightarrow> p \<noteq> s \<Longrightarrow> lookup fs' p = lookup fs p"
  by (auto simp: IOUtils_move_def lookup_def update_conv' delete_conv' split: option.splits if_splits)

lemma rename_loop_fresh: "rename_loop fs d f c = Inr r \<Longrightarrow> \<not> fileExists fs r"
proof (induction fs d f c rule: rename_loop.induct)
  case (1 fs destPath finalPath counter)
  show ?case
  proof (cases "fileExists fs finalPath")
    case False
    then have "rename_loop fs destPath finalPath counter = Inr finalPath"
      by (subst rename_loop.simps) simp
    then show ?thesis using "1.prems" False by simp
  next
    case True
    then have big: "\<not> counter + 1 > MAX_RENAME_COUNTER"
      using "1.prems" by (subst (asm) rename_loop.simps) (auto simp: Let_def split: if_splits)
    then have "rename_loop fs destPath (candidate destPath counter) (counter + 1) = Inr r"
      using "1.prems" True by (subst (asm) rename_loop.simps) (simp add: Let_def)
    then show ?thesis using True big by (intro "1.IH") auto
  qed
qed


lemma copyFile_overwrite_other:
  assumes "copyFile fs src dst True = (r, fs')" and "p \<noteq> dst"
  shows "lookup fs' p = lookup fs p"
proof (cases "ensureDirectory fs (getParentDir dst)")
  case (Inl e)
  then show ?thesis using assms by (simp add: copyFile_def)
next
  case (Inr fs1)
  let ?fs2 = "if fileExists fs1 dst then removeFile fs1 dst else fs1"
  have l1: "lookup fs1 p = lookup fs p" using Inr by (rule ensureDirectory_files)
  have l2: "lookup ?fs2 p = lookup fs p" using l1 assms(2) by (simp add: removeFile_other)
  show ?thesis
  proof (cases "IOUtils_copy ?fs2 src dst")
    case (Inl e)
    then have "fs' = ?fs2" using assms(1) Inr by (simp add: copyFile_def Let_def)
    then show ?thesis using l2 by simp
  next
    case (Inr fs3)
    then have "fs' = fs3" using assms(1) \<open>ensureDirectory fs (getParentDir dst) = Inr fs1\<close>
      by (simp add: copyFile_def Let_def)
    then show ?thesis using IOUtils_copy_other [OF Inr assms(2)] l2 by simp
  qed
qed

lemma moveFile_other:
  assumes "moveFile fs src dst = (r, fs')" and "lookup fs p = Some f" and "p \<noteq> src"
  shows "lookup fs' p = Some f"
proof (cases "ensureDirectory fs (getParentDir dst)")
  case (Inl e)
  then show ?thesis using assms by (simp add: moveFile_def)
next
  case (Inr fs1)
  have l1: "lookup fs1 p = Some f" using ensureDirectory_files [OF Inr] assms(2) by simp
  show ?thesis
  proof (cases "rename_loop fs1 dst dst 2")
    case (Inl e)
    then have "fs' = fs1" using assms(1) Inr by (simp add: moveFile_def)
    then show ?thesis using l1 by simp
  next
    case fin: (Inr finalPath)
    have "\<not> fileExists fs1 finalPath" using fin by (rule rename_loop_fresh)
    then have ne: "p \<noteq> finalPath" using l1 by (auto simp: fileExists_def)
    show ?thesis
    proof (cases "IOUtils_move fs1 src finalPath")
      case (Inl e)
      then have "fs' = fs1" using assms(1) Inr fin by (simp add: moveFile_def)
      then show ?thesis using l1 by simp
    next
      case mv: (Inr fs2)
      then have "fs' = fs2" using assms(1) Inr fin by (simp add: moveFile_def)
      then show ?thesis using IOUtils_move_other [OF mv ne assms(3)] l1 by simp
    qed
  qed
qed

lemma w_fs_upd_att [simp]: "w_fs (upd_att w a f) = w_fs w"
  by (simp add: upd_att_def)

lemma w_fs_upd_parent [simp]: "w_fs (upd_parent w p f) = w_fs w"
  by (simp add: upd_parent_def)

lemma w_atts_upd_att_other: "b \<noteq> a \<Longrightarrow> w_atts (upd_att w b f) a = w_atts w a"
  by (simp add: upd_att_def)

lemma removeTabletTag_frame:
  "w_fs (removeTabletTag w b t) = w_fs w \<and> (b \<noteq> a \<longrightarrow> w_atts (removeTabletTag w b t) a = w_atts w a)"
  by (simp add: removeTabletTag_def Let_def w_atts_upd_att_other split: option.splits)

lemma clearTabletInfo_frame:
  "w_fs (clearTabletInfo w b) = w_fs w \<and> (b \<noteq> a \<longrightarrow> w_atts (clearTabletInfo w b) a = w_atts w a)"
  by (simp add: clearTabletInfo_def Let_def w_atts_upd_att_other)

lemma untrack_frame:
  "w_fs (untrack pr w b) = w_fs w \<and> (b \<noteq> a \<longrightarrow> w_atts (untrack pr w b) a = w_atts w a)"
  unfolding untrack_def using removeTabletTag_frame clearTabletInfo_frame by metis

lemma relink_frame:
  "w_fs (relinkAttachmentFile w b q) = w_fs w \<and>
   (b \<noteq> a \<longrightarrow> w_atts (relinkAttachmentFile w b q) a = w_atts w a)"
  by (simp add: relinkAttachmentFile_def w_atts_upd_att_other)


lemma get_processFile_att:
  assumes "get_processFile pr g w = (r, w')"
  shows "(g_attachment g \<noteq> a \<longrightarrow> w_atts w' a = w_atts w a) \<and>
         (\<forall>res. r = Inr res \<longrightarrow> f_attachment (r_data res) = g_attachment g)"
proof (cases "info_mode (g_info g) = Some MODE_BACKGROUND")
  case True
  then show ?thesis
    using assms by (auto simp: get_processFile_def split: if_splits option.splits prod.splits sum.splits)
next
  case False
  let ?orig = "joinPath [storageDir pr, attachmentKey (w_atts w (g_attachment g)),
                         attachmentFilename (w_atts w (g_attachment g))]"
  show ?thesis
  proof (cases "ensureDirectory (w_fs w) (getParentDir ?orig)")
    case (Inl e)
    then show ?thesis using assms False by (auto simp: get_processFile_def Let_def)
  next
    case (Inr fs1)
    obtain r0 fs2 where mv: "moveFile fs1 (g_tabletPath g) ?orig = (r0, fs2)"
      by (cases "moveFile fs1 (g_tabletPath g) ?orig")
    show ?thesis
      using assms(1) False Inr mv relink_frame [of "w\<lparr>w_fs := fs2\<rparr>" "g_attachment g" ?orig a]
      by (cases r0) (auto simp: get_processFile_def Let_def)
  qed
qed

lemma get_processFile_file:
  assumes "get_processFile pr g w = (r, w')" and "off_path p g" and "lookup (w_fs w) p = Some f"
  shows "lookup (w_fs w') p = Some f \<and>
         (\<forall>res. r = Inr res \<longrightarrow> f_tabletPath (r_data res) \<noteq> Some p)"
proof (cases "info_mode (g_info g) = Some MODE_BACKGROUND")
  case True
  show ?thesis
  proof (cases "g_tabletModified g \<or> g_useTablet g = Some True")
    case False
    then show ?thesis using assms True by (auto simp: get_processFile_def off_path_def)
  next
    case mod: True
    show ?thesis
    proof (cases "g_zoteroPath g")
      case None
      then show ?thesis using assms True mod by (auto simp: get_processFile_def)
    next
      case (Some zp)
      obtain r0 fs' where cf: "copyFile (w_fs w) (g_tabletPath g) zp True = (r0, fs')"
        by (cases "copyFile (w_fs w) (g_tabletPath g) zp True")
      have "p \<noteq> zp" using assms(2) Some by (auto simp: off_path_def)
      then have l: "lookup fs' p = Some f" using copyFile_overwrite_other [OF cf] assms(3) by simp
      show ?thesis
        using assms(1,2) True mod Some cf l
        by (cases r0) (auto simp: get_processFile_def off_path_def)
    qed
  qed
next
  case False
  let ?orig = "joinPath [storageDir pr, attachmentKey (w_atts w (g_attachment g)),
                         attachmentFilename (w_atts w (g_attachment g))]"
  show ?thesis
  proof (cases "ensureDirectory (w_fs w) (getParentDir ?orig)")
    case (Inl e)
    then show ?thesis using assms False by (auto simp: get_processFile_def Let_def)
  next
    case (Inr fs1)
    have l1: "lookup fs1 p = Some f" using ensureDirectory_files [OF Inr] assms(3) by simp
    obtain r0 fs2 where mv: "moveFile fs1 (g_tabletPath g) ?orig = (r0, fs2)"
      by (cases "moveFile fs1 (g_tabletPath g) ?orig")
    have "p \<noteq> g_tabletPath g" using assms(2) by (auto simp: off_path_def)
    then have l2: "lookup fs2 p = Some f" using moveFile_other [OF mv l1] by simp
    show ?thesis
      using assms(1) False Inr mv l2 relink_frame [of "w\<lparr>w_fs := fs2\<rparr>" "g_attachment g" ?orig]
      by (cases r0) (auto simp: get_processFile_def Let_def)
  qed
qed

lemma run_chunk_get_att:
  assumes "run_chunk nm (in_turn (get_processFile pr)) tp w = (Inr es, w')"
    and "\<forall>g \<in> set tp. g_attachment g \<noteq> a"
  shows "w_atts w' a = w_atts w a \<and>
         (\<forall>e \<in> set es. \<forall>res. e_data e = Some res \<longrightarrow> f_attachment res \<noteq> a)"
  using assms
proof (induction tp arbitrary: w es w')
  case Nil
  then show ?case by (simp add: run_chunk_in_turn_Nil)
next
  case (Cons g tp)
  from Cons.prems(1) obtain r w1 e es1 where pf: "get_processFile pr g w = (r, w1)"
    and ro: "run_one nm g r = Inr e"
    and rc: "run_chunk nm (in_turn (get_processFile pr)) tp w1 = (Inr es1, w')"
    and es: "es = e # es1"
    by (rule run_chunk_in_turn_ConsE)
  have ga: "g_attachment g \<noteq> a" using Cons.prems(2) by simp
  have h: "w_atts w1 a = w_atts w a" using get_processFile_att [OF pf, of a] ga by simp
  have he: "\<forall>res. e_data e = Some res \<longrightarrow> f_attachment res \<noteq> a"
    using ro get_processFile_att [OF pf, of a] ga
    by (cases r) (auto simp: run_one_def split: option.splits)
  have IH: "w_atts w' a = w_atts w1 a \<and>
            (\<forall>e \<in> set es1. \<forall>res. e_data e = Some res \<longrightarrow> f_attachment res \<noteq> a)"
    using Cons.IH [OF rc] Cons.prems(2) by simp
  show ?case using es h he IH by simp
qed

lemma run_chunk_get_file:
  assumes "run_chunk nm (in_turn (get_processFile pr)) tp w = (Inr es, w')"
    and "\<forall>g \<in> set tp. off_path p g" and "lookup (w_fs w) p = Some f"
  shows "lookup (w_fs w') p = Some f \<and>
         (\<forall>e \<in> set es. \<forall>res. e_data e = Some res \<longrightarrow> f_tabletPath res \<noteq> Some p)"
  using assms
proof (induction tp arbitrary: w es w')
  case Nil
  then show ?case by (simp add: run_chunk_in_turn_Nil)
next
  case (Cons g tp)
  from Cons.prems(1) obtain r w1 e es1 where pf: "get_processFile pr g w = (r, w1)"
    and ro: "run_one nm g r = Inr e"
    and rc: "run_chunk nm (in_turn (get_processFile pr)) tp w1 = (Inr es1, w')"
    and es: "es = e # es1"
    by (rule run_chunk_in_turn_ConsE)
  have op: "off_path p g" using Cons.prems(2) by simp
  note fr = get_processFile_file [OF pf op Cons.prems(3)]
  have h: "lookup (w_fs w1) p = Some f" using fr by simp
  have he: "\<forall>res. e_data e = Some res \<longrightarrow> f_tabletPath res \<noteq> Some p"
    using ro fr by (cases r) (auto simp: run_one_def split: option.splits)
  have IH: "lookup (w_fs w') p = Some f \<and>
            (\<forall>e \<in> set es1. \<forall>res. e_data e = Some res \<longrightarrow> f_tabletPath res \<noteq> Some p)"
    using Cons.IH [OF rc _ h] Cons.prems(2) by simp
  show ?case using es he IH by simp
qed


declare cleanup_results.simps(2) [simp del]

lemma cleanup_results_att:
  assumes "cleanup_results pr es (w, sdb, ext) = (w', sdb', ext')"
    and "\<forall>e \<in> set es. \<forall>res. e_data e = Some res \<longrightarrow> f_attachment res \<noteq> a"
    and "a \<notin> set sdb" and "a \<notin> set ext"
  shows "w_atts w' a = w_atts w a \<and> a \<notin> set sdb' \<and> a \<notin> set ext'"
  using assms
proof (induction es arbitrary: w sdb ext)
  case Nil
  then show ?case by simp
next
  case (Cons e es)
  show ?case
  proof (cases "e_data e")
    case None
    then have "cleanup_results pr es (w, sdb, ext) = (w', sdb', ext')"
      using Cons.prems(1) by (simp add: cleanup_results.simps(2))
    then show ?thesis using Cons.IH Cons.prems by simp
  next
    case (Some res)
    define w1 where "w1 = (case f_tabletPath res of
                       None \<Rightarrow> w
                     | Some tabletPath \<Rightarrow>
                         if tabletPath = [] then w
                         else w\<lparr>w_fs := removeEmptyDirs (removeFile (w_fs w) tabletPath)
                                          (getParentDir tabletPath) (destDir pr)\<rparr>)"
    define w2 where "w2 = untrack pr w1 (f_attachment res)"
    have step: "cleanup_results pr es
           (w2, sdb @ [f_attachment res],
            (if f_shouldExtract res then ext @ [f_attachment res] else ext)) = (w', sdb', ext')"
      using Cons.prems(1) Some unfolding w1_def w2_def
      by (simp add: cleanup_results.simps(2) Let_def)
    have na: "f_attachment res \<noteq> a" using Cons.prems(2) Some by simp
    have a1: "w_atts w1 a = w_atts w a" unfolding w1_def by (simp split: option.splits)
    have a2: "w_atts w2 a = w_atts w a"
      unfolding w2_def using untrack_frame [of pr w1 "f_attachment res" a] na a1 by simp
    have "w_atts w' a = w_atts w2 a \<and> a \<notin> set sdb' \<and> a \<notin> set ext'"
      using Cons.prems(2,3,4) na by (intro Cons.IH [OF step]) auto
    then show ?thesis using a2 by simp
  qed
qed

lemma cleanup_results_file:
  assumes "cleanup_results pr es (w, sdb, ext) = (w', sdb', ext')"
    and "\<forall>e \<in> set es. \<forall>res. e_data e = Some res \<longrightarrow> f_tabletPath res \<noteq> Some p"
    and "lookup (w_fs w) p = Some f" and "\<not> has_hidden p"
  shows "lookup (w_fs w') p = Some f"
  using assms
proof (induction es arbitrary: w sdb ext)
  case Nil
  then show ?case by simp
next
  case (Cons e es)
  show ?case
  proof (cases "e_data e")
    case None
    then have "cleanup_results pr es (w, sdb, ext) = (w', sdb', ext')"
      using Cons.prems(1) by (simp add: cleanup_results.simps(2))
    then show ?thesis using Cons.IH Cons.prems by simp
  next
    case (Some res)
    define w1 where "w1 = (case f_tabletPath res of
                       None \<Rightarrow> w
                     | Some tabletPath \<Rightarrow>
                         if tabletPath = [] then w
                         else w\<lparr>w_fs := removeEmptyDirs (removeFile (w_fs w) tabletPath)
                                          (getParentDir tabletPath) (destDir pr)\<rparr>)"
    define w2 where "w2 = untrack pr w1 (f_attachment res)"
    have step: "cleanup_results pr es
           (w2, sdb @ [f_attachment res],
            (if f_shouldExtract res then ext @ [f_attachment res] else ext)) = (w', sdb', ext')"
      using Cons.prems(1) Some unfolding w1_def w2_def
      by (simp add: cleanup_results.simps(2) Let_def)
    have np: "f_tabletPath res \<noteq> Some p" using Cons.prems(2) Some by simp
    have l1: "lookup (w_fs w1) p = Some f"
    proof (cases "f_tabletPath res")
      case None
      then show ?thesis using Cons.prems(3) by (simp add: w1_def)
    next
      case tp: (Some tabletPath)
      then have "p \<noteq> tabletPath" using np by auto
      then have "lookup (removeFile (w_fs w) tabletPath) p = Some f"
        using Cons.prems(3) by (simp add: removeFile_other)
      then have "lookup (removeEmptyDirs (removeFile (w_fs w) tabletPath)
                     (getParentDir tabletPath) (destDir pr)) p = Some f"
        using Cons.prems(4) by (rule removeEmptyDirs_keeps)
      then show ?thesis using tp Cons.prems(3) by (simp add: w1_def)
    qed
    have l2: "lookup (w_fs w2) p = Some f"
      unfolding w2_def using untrack_frame [of pr w1 "f_attachment res"] l1 by simp
    show ?thesis
      using Cons.prems(2,4) l2 by (intro Cons.IH [OF step]) auto
  qed
qed

lemma cleanup_missing_frame:
  assumes "cleanup_missing pr ms (w, sdb) = (w', sdb')" and "a \<notin> set ms" and "a \<notin> set sdb"
  shows "w_fs w' = w_fs w \<and> w_atts w' a = w_atts w a \<and> a \<notin> set sdb'"
  using assms
proof (induction ms arbitrary: w sdb)
  case Nil
  then show ?case by simp
next
  case (Cons b ms)
  have step: "cleanup_missing pr ms (untrack pr w b, sdb @ [b]) = (w', sdb')"
    using Cons.prems(1) by simp
  have nb: "b \<noteq> a" using Cons.prems(2) by auto
  have "w_fs w' = w_fs (untrack pr w b) \<and> w_atts w' a = w_atts (untrack pr w b) a \<and> a \<notin> set sdb'"
    using Cons.prems(2,3) nb by (intro Cons.IH [OF step]) auto
  then show ?case using untrack_frame [of pr w b a] nb by simp
qed

lemma cleanup_missing_fs:
  "w_fs (fst (cleanup_missing pr ms (w, sdb))) = w_fs w"
proof (induction ms arbitrary: w sdb)
  case Nil
  show ?case by simp
next
  case (Cons b ms)
  show ?case using untrack_frame [of pr w b] by (simp add: Cons.IH)
qed


lemma gather_of_att: "gather_of pr w b = Gathered g \<Longrightarrow> g_attachment g = b"
  unfolding gather_of_def
  by (auto simp: gatherInfo_def Let_def split: if_splits sum.splits option.splits)

lemma gather_of_missing: "gather_of pr w b = SkipNoFile c \<Longrightarrow> c = b"
  unfolding gather_of_def
  by (auto simp: gatherInfo_def Let_def split: if_splits sum.splits option.splits)

lemma pending_of_mem: "g \<in> set (pending_of rs) \<longleftrightarrow> Gathered g \<in> set rs \<and> \<not> g_hasConflict g"
  by (induction rs rule: pending_of.induct) auto

lemma conflicts_of_mem: "g \<in> set (conflicts_of rs) \<longleftrightarrow> Gathered g \<in> set rs \<and> g_hasConflict g"
  by (induction rs rule: conflicts_of.induct) auto

lemma missing_of_mem: "b \<in> set (missing_of rs) \<longleftrightarrow> SkipNoFile b \<in> set rs"
  by (induction rs rule: missing_of.induct) auto

lemma resolve_conflicts_mem:
  "g \<in> set (fst (resolve_conflicts user k cs (tp, asked))) \<Longrightarrow>
     g \<in> set tp \<or>
     (\<exists>c \<in> set cs. \<exists>j u. g = c\<lparr>g_useTablet := u\<rparr> \<and>
          resolveConflict (user j (g_attachment c)) \<noteq> Cancel)"
proof (induction cs arbitrary: k tp asked)
  case Nil
  then show ?case by simp
next
  case (Cons c cs)
  show ?case
  proof (cases "resolveConflict (user k (g_attachment c))")
    case UseTablet
    then have "g \<in> set (fst (resolve_conflicts user (k + 1) cs
                 (tp @ [c\<lparr>g_useTablet := Some True\<rparr>], asked @ [g_attachment c])))"
      using Cons.prems by simp
    from Cons.IH [OF this] show ?thesis
    proof
      assume "g \<in> set (tp @ [c\<lparr>g_useTablet := Some True\<rparr>])"
      then show ?thesis using UseTablet by (auto intro!: exI [of _ k])
    next
      assume "\<exists>c \<in> set cs. \<exists>j u. g = c\<lparr>g_useTablet := u\<rparr> \<and>
                resolveConflict (user j (g_attachment c)) \<noteq> Cancel"
      then show ?thesis by auto
    qed
  next
    case UseZotero
    then have "g \<in> set (fst (resolve_conflicts user (k + 1) cs
                 (tp @ [c\<lparr>g_useTablet := Some False\<rparr>], asked @ [g_attachment c])))"
      using Cons.prems by simp
    from Cons.IH [OF this] show ?thesis
    proof
      assume "g \<in> set (tp @ [c\<lparr>g_useTablet := Some False\<rparr>])"
      then show ?thesis using UseZotero by (auto intro!: exI [of _ k])
    next
      assume "\<exists>c \<in> set cs. \<exists>j u. g = c\<lparr>g_useTablet := u\<rparr> \<and>
                resolveConflict (user j (g_attachment c)) \<noteq> Cancel"
      then show ?thesis by auto
    qed
  next
    case Cancel
    then have "g \<in> set (fst (resolve_conflicts user (k + 1) cs (tp, asked @ [g_attachment c])))"
      using Cons.prems by simp
    from Cons.IH [OF this] show ?thesis by auto
  qed
qed

text \<open>Every entry that reaches the apply phase stems from the gather pass.\<close>

lemma toProcess_origin:
  assumes "g \<in> set (fst (resolve_conflicts user 0 (conflicts_of (map (gather_of pr w) ta))
                            (pending_of (map (gather_of pr w) ta), [])))"
  shows "\<exists>b \<in> set ta. \<exists>g0. gather_of pr w b = Gathered g0 \<and> g_attachment g = b \<and>
           g_tabletPath g = g_tabletPath g0 \<and> g_zoteroPath g = g_zoteroPath g0 \<and>
           (g_hasConflict g0 \<longrightarrow> (\<exists>j. resolveConflict (user j b) \<noteq> Cancel))"
  using resolve_conflicts_mem [OF assms]
proof
  assume "g \<in> set (pending_of (map (gather_of pr w) ta))"
  then obtain b where "b \<in> set ta" "gather_of pr w b = Gathered g" "\<not> g_hasConflict g"
    by (auto simp: pending_of_mem)
  then show ?thesis using gather_of_att by blast
next
  assume "\<exists>c \<in> set (conflicts_of (map (gather_of pr w) ta)). \<exists>j u.
            g = c\<lparr>g_useTablet := u\<rparr> \<and> resolveConflict (user j (g_attachment c)) \<noteq> Cancel"
  then obtain c j u where c: "c \<in> set (conflicts_of (map (gather_of pr w) ta))"
    and g: "g = c\<lparr>g_useTablet := u\<rparr>"
    and j: "resolveConflict (user j (g_attachment c)) \<noteq> Cancel" by blast
  from c obtain b where b: "b \<in> set ta" "gather_of pr w b = Gathered c"
    by (auto simp: conflicts_of_mem)
  have "g_attachment c = b" using b(2) by (rule gather_of_att)
  then show ?thesis using b g j by (intro bexI [of _ b] exI [of _ c]) auto
qed

text \<open>
  What a pass leaves alone when every dialog for a conflicting file is answered with skip.
\<close>

lemma skip_frame:
  assumes run: "getFromTablet user pr w atts = Some (Inr out)"
    and conflict: "has_conflict pr w a"
    and skip: "\<forall>k. resolveConflict (user k a) = Cancel"
  shows "a \<notin> set (o_applied out) \<and>
         w_atts (o_world out) a = w_atts w a \<and>
         a \<notin> set (o_toSaveDB out) \<and> a \<notin> set (o_toExtract out) \<and>
         (\<forall>p f. lookup (w_fs w) p = Some f \<and> \<not> has_hidden p \<and>
                (\<forall>b \<in> set atts. isOnTablet pr w b \<and> b \<noteq> a \<longrightarrow>
                   (\<forall>g. gather_of pr w b = Gathered g \<longrightarrow>
                        g_tabletPath g \<noteq> p \<and> g_zoteroPath g \<noteq> Some p)) \<longrightarrow>
                lookup (w_fs (o_world out)) p = Some f)"
proof (cases "filter (isOnTablet pr w) atts = []")
  case True
  then have "out = \<lparr>o_world = w, o_prompted = [], o_applied = [], o_retrieved = 0,
                    o_errors = 0, o_toSaveDB = [], o_toExtract = []\<rparr>"
    using run by (auto simp: getFromTablet_unfold)
  then show ?thesis by simp
next
  case False
  let ?ta = "filter (isOnTablet pr w) atts"
  let ?rs = "map (gather_of pr w) ?ta"
  let ?tp = "fst (resolve_conflicts user 0 (conflicts_of ?rs) (pending_of ?rs, []))"
  let ?asked = "snd (resolve_conflicts user 0 (conflicts_of ?rs) (pending_of ?rs, []))"
  have out: "finish_get pr ?rs ?tp ?asked w = Inr out"
    using run False by (auto simp: getFromTablet_unfold split: prod.splits)
  obtain es w2 where rc: "run_chunk (\<lambda>g. Some ([], [])) (in_turn (get_processFile pr)) ?tp w =
                            (Inr es, w2)"
    using run_chunk_named [of "\<lambda>g. Some ([], [])" "get_processFile pr" ?tp w] by auto
  obtain w3 sdb ext where cr: "cleanup_results pr (filter e_success es) (w2, [], []) = (w3, sdb, ext)"
    by (cases "cleanup_results pr (filter e_success es) (w2, [], [])") auto
  obtain w4 sdb' where cm: "cleanup_missing pr (missing_of ?rs) (w3, sdb) = (w4, sdb')"
    by (cases "cleanup_missing pr (missing_of ?rs) (w3, sdb)")
  have "out = \<lparr>o_world = w4, o_prompted = ?asked, o_applied = map g_attachment ?tp,
               o_retrieved = length (filter e_success es),
               o_errors = length (filter (\<lambda>e. \<not> e_success e) es),
               o_toSaveDB = sdb', o_toExtract = ext\<rparr>"
    using out by (simp add: finish_get_def rc cr cm)
  then have ow: "o_world out = w4" and os: "o_toSaveDB out = sdb'" and oe: "o_toExtract out = ext"
    and oa: "o_applied out = map g_attachment ?tp"
    by simp_all
  obtain ga where ga: "gather_of pr w a = Gathered ga" "g_hasConflict ga"
    using conflict by (auto simp: has_conflict_def split: gather_result.splits)
  have tp_att: "\<forall>g \<in> set ?tp. g_attachment g \<noteq> a"
  proof
    fix g assume "g \<in> set ?tp"
    from toProcess_origin [OF this] obtain b g0 where
      b: "gather_of pr w b = Gathered g0" "g_attachment g = b"
         "g_hasConflict g0 \<longrightarrow> (\<exists>j. resolveConflict (user j b) \<noteq> Cancel)" by blast
    show "g_attachment g \<noteq> a"
    proof
      assume "g_attachment g = a"
      then have "b = a" using b(2) by simp
      then have "g0 = ga" using b(1) ga(1) by simp
      then show False using b(3) ga(2) skip \<open>b = a\<close> by auto
    qed
  qed
  have miss: "a \<notin> set (missing_of ?rs)"
  proof
    assume "a \<in> set (missing_of ?rs)"
    then obtain b where "gather_of pr w b = SkipNoFile a" by (auto simp: missing_of_mem)
    then have "gather_of pr w a = SkipNoFile a" using gather_of_missing by blast
    then show False using ga(1) by simp
  qed
  note p2 = run_chunk_get_att [OF rc tp_att]
  have "\<forall>e \<in> set (filter e_success es). \<forall>res. e_data e = Some res \<longrightarrow> f_attachment res \<noteq> a"
    using p2 by auto
  note p3 = cleanup_results_att [OF cr this]
  have a3: "w_atts w3 a = w_atts w a" "a \<notin> set sdb" "a \<notin> set ext" using p2 p3 by simp_all
  note p4 = cleanup_missing_frame [OF cm miss a3(2)]
  have store: "w_atts w4 a = w_atts w a" "a \<notin> set sdb'" using p4 a3 by simp_all
  have files: "lookup (w_fs w4) p = Some f"
    if l: "lookup (w_fs w) p = Some f" and nh: "\<not> has_hidden p"
      and others: "\<forall>b \<in> set atts. isOnTablet pr w b \<and> b \<noteq> a \<longrightarrow>
                     (\<forall>g. gather_of pr w b = Gathered g \<longrightarrow>
                          g_tabletPath g \<noteq> p \<and> g_zoteroPath g \<noteq> Some p)" for p f
  proof -
    have tp_off: "\<forall>g \<in> set ?tp. off_path p g"
    proof
      fix g assume g: "g \<in> set ?tp"
      from toProcess_origin [OF g] obtain b g0 where
        b: "b \<in> set ?ta" "gather_of pr w b = Gathered g0" "g_attachment g = b"
           "g_tabletPath g = g_tabletPath g0" "g_zoteroPath g = g_zoteroPath g0" by blast
      have "b \<noteq> a" using tp_att g b(3) by auto
      then show "off_path p g" using others b by (auto simp: off_path_def)
    qed
    note q2 = run_chunk_get_file [OF rc tp_off l]
    have "\<forall>e \<in> set (filter e_success es). \<forall>res. e_data e = Some res \<longrightarrow> f_tabletPath res \<noteq> Some p"
      using q2 by auto
    from cleanup_results_file [OF cr this _ nh] q2 have "lookup (w_fs w3) p = Some f" by simp
    then show ?thesis using p4 by simp
  qed
  have "a \<notin> set (map g_attachment ?tp)" using tp_att by auto
  then show ?thesis unfolding ow os oe oa using store a3(3) files by blast
qed



section \<open>Conflicts during retrieve\<close>

text \<open>
  Claim C1, as the code has it by design. \<^verbatim>\<open>getFromTablet\<close> returns. It shows one
  conflict dialog for each listed occurrence of a tracked attachment for which the gather
  pass reports a conflict, in list order, and for nothing else; so a conflicting file that
  is listed once gets exactly one dialog. For an attachment whose record says Copy
  (Background) mode, a conflict is reported exactly when the record has a location,
  something exists there, and both the time read there and the time read for the library
  copy are greater than the recorded \<^verbatim>\<open>lastmod\<close> (0 when none is recorded). The files
  handed to the apply phase are the tracked files found without conflict, followed by
  those conflicting ones whose dialog was answered with one of the two versions, in the
  order of the dialogs. A conflicting file whose dialogs are all answered with skip is not
  handed over: the attachment stays as it was, and so does every file that has no hidden
  component in its path and is neither the tablet copy nor the library copy of another
  tracked attachment in the list. When every tracked file is in conflict and every dialog
  is answered with skip, the pass leaves the file system and the items exactly as they
  were. Attachments in Move mode are left out.
\<close>

theorem getFromTablet_conflicts:
  "\<exists>out. getFromTablet user pr w atts = Some (Inr out) \<and>
     o_prompted out = filter (has_conflict pr w) (filter (isOnTablet pr w) atts) \<and>
     o_applied out = filter (retrievable pr w) (filter (isOnTablet pr w) atts) @
                     answered user 0 (o_prompted out) \<and>
     (\<forall>a. info_mode (getTabletInfo pr w a) = Some MODE_BACKGROUND \<longrightarrow>
        (has_conflict pr w a \<longleftrightarrow>
           (\<exists>r loc. getTabletInfo pr w a = PRecord r \<and> location r = Str loc \<and> loc \<noteq> [] \<and>
              fileExists (w_fs w) loc \<and>
              saved_time r < getFileModTime (w_fs w) loc \<and> saved_time r < internal_mtime w a))) \<and>
     (distinct atts \<longrightarrow>
        (\<forall>a \<in> set atts. isOnTablet pr w a \<and> has_conflict pr w a \<longrightarrow>
           count_list (o_prompted out) a = 1)) \<and>
     (\<forall>a. has_conflict pr w a \<and> (\<forall>k. resolveConflict (user k a) = Cancel) \<longrightarrow>
        a \<notin> set (o_applied out) \<and> w_atts (o_world out) a = w_atts w a \<and>
        (\<forall>p f. lookup (w_fs w) p = Some f \<and> \<not> has_hidden p \<and>
               (\<forall>b \<in> set atts. isOnTablet pr w b \<and> b \<noteq> a \<longrightarrow>
                  (\<forall>g. gather_of pr w b = Gathered g \<longrightarrow>
                       g_tabletPath g \<noteq> p \<and> g_zoteroPath g \<noteq> Some p)) \<longrightarrow>
               lookup (w_fs (o_world out)) p = Some f)) \<and>
     ((\<forall>a \<in> set atts. isOnTablet pr w a \<longrightarrow> has_conflict pr w a) \<and>
      (\<forall>k a. resolveConflict (user k a) = Cancel) \<longrightarrow> o_world out = w)"
proof -
  let ?ta = "filter (isOnTablet pr w) atts"
  let ?rs = "map (gather_of pr w) ?ta"
  let ?R = "resolve_conflicts user 0 (conflicts_of ?rs) (pending_of ?rs, [])"
  obtain out where out: "getFromTablet user pr w atts = Some (Inr out)"
    using getFromTablet_returns by blast
  have shape: "o_prompted out = map g_attachment (conflicts_of ?rs) \<and>
               o_applied out = map g_attachment (pending_of ?rs) @
                               answered user 0 (map g_attachment (conflicts_of ?rs))"
  proof (cases "?ta = []")
    case True
    then have "out = \<lparr>o_world = w, o_prompted = [], o_applied = [], o_retrieved = 0,
                      o_errors = 0, o_toSaveDB = [], o_toExtract = []\<rparr>"
      using out by (auto simp: getFromTablet_unfold)
    then show ?thesis by (simp add: True)
  next
    case False
    then have fg: "finish_get pr ?rs (fst ?R) (snd ?R) w = Inr out"
      using out by (auto simp: getFromTablet_unfold split: prod.splits)
    obtain out' where "finish_get pr ?rs (fst ?R) (snd ?R) w = Inr out'"
      and "o_prompted out' = snd ?R" and "o_applied out' = map g_attachment (fst ?R)"
      using finish_get_returns by blast
    then have "o_prompted out = snd ?R" and "o_applied out = map g_attachment (fst ?R)"
      using fg by simp_all
    moreover have "snd (resolve_conflicts user k cs (tp, asked)) = asked @ map g_attachment cs"
      for k cs tp asked
      by (induction cs arbitrary: k tp asked) (simp_all split: resolution.splits)
    moreover have "map g_attachment (fst (resolve_conflicts user k cs (tp, asked))) =
                   map g_attachment tp @ answered user k (map g_attachment cs)"
      for k cs tp asked
      by (induction cs arbitrary: k tp asked) (simp_all split: resolution.splits)
    ultimately show ?thesis by simp
  qed
  have prompted: "o_prompted out = filter (has_conflict pr w) ?ta"
    using shape by (simp add: conflicts_of_map)
  have applied: "o_applied out = filter (retrievable pr w) ?ta @ answered user 0 (o_prompted out)"
    using shape by (simp add: pending_of_map)
  have once: "count_list (o_prompted out) a = 1"
    if "distinct atts" "a \<in> set atts" "isOnTablet pr w a" "has_conflict pr w a" for a
    unfolding prompted using that by (intro count_filter_distinct) auto
  have frame: "a \<notin> set (o_applied out) \<and> w_atts (o_world out) a = w_atts w a \<and>
        (\<forall>p f. lookup (w_fs w) p = Some f \<and> \<not> has_hidden p \<and>
               (\<forall>b \<in> set atts. isOnTablet pr w b \<and> b \<noteq> a \<longrightarrow>
                  (\<forall>g. gather_of pr w b = Gathered g \<longrightarrow>
                       g_tabletPath g \<noteq> p \<and> g_zoteroPath g \<noteq> Some p)) \<longrightarrow>
               lookup (w_fs (o_world out)) p = Some f)"
    if "has_conflict pr w a" and "\<forall>k. resolveConflict (user k a) = Cancel" for a
    using skip_frame [OF out that] by blast
  have quiet: "o_world out = w"
    if all: "\<forall>a \<in> set atts. isOnTablet pr w a \<longrightarrow> has_conflict pr w a"
      and cancel: "\<forall>k a. resolveConflict (user k a) = Cancel"
  proof (cases "?ta = []")
    case True
    then show ?thesis using out by (auto simp: getFromTablet_unfold)
  next
    case False
    have "\<forall>x \<in> set xs. has_conflict pr w x \<Longrightarrow>
            pending_of (map (gather_of pr w) xs) = [] \<and> missing_of (map (gather_of pr w) xs) = []"
      for xs
    proof (induction xs)
      case Nil
      show ?case by simp
    next
      case (Cons x xs)
      then show ?case by (cases "gather_of pr w x") (auto simp: has_conflict_def)
    qed
    then have e: "pending_of ?rs = []" "missing_of ?rs = []" using all by auto
    have "fst ?R = []" using resolve_all_cancel [OF cancel, of 0 "conflicts_of ?rs" "[]" "[]"]
      by (simp add: e)
    moreover have "finish_get pr ?rs (fst ?R) (snd ?R) w = Inr out"
      using out False by (auto simp: getFromTablet_unfold split: prod.splits)
    ultimately show ?thesis
      by (auto simp: e finish_get_def run_chunk_in_turn_Nil)
  qed
  show ?thesis
    using out prompted applied once frame quiet has_conflict_copy_mode by blast
qed

lemma two_conflict_world_facts:
  "isOnTablet sample_prefs two_conflict_world 0 \<and> isOnTablet sample_prefs two_conflict_world 1 \<and>
   has_conflict sample_prefs two_conflict_world 0 \<and> has_conflict sample_prefs two_conflict_world 1 \<and>
   \<not> retrievable sample_prefs two_conflict_world 0 \<and>
   \<not> retrievable sample_prefs two_conflict_world 1 \<and>
   info_mode (getTabletInfo sample_prefs two_conflict_world 0) = Some MODE_BACKGROUND \<and>
   gather_of sample_prefs two_conflict_world 1 =
     Gathered \<lparr>g_attachment = 1,
               g_info = PRecord (copy_record\<lparr>location := Str ''/mnt/tablet/b.pdf''\<rparr>),
               g_tabletPath = ''/mnt/tablet/b.pdf'',
               g_zoteroPath = Some ''/zotero/storage/KEY2/b.pdf'',
               g_tabletModified = True, g_zoteroModified = True, g_hasConflict = True,
               g_useTablet = None\<rparr> \<and>
   lookup (w_fs two_conflict_world) ''/mnt/tablet/a.pdf'' =
     Some \<lparr>lastModified = Some 10, content = ''a2''\<rparr> \<and>
   \<not> has_hidden ''/mnt/tablet/a.pdf'' \<and>
   resolveConflict (skip_first 0 0) = Cancel \<and> resolveConflict (skip_first 1 1) = UseTablet"
  by code_simp

theorem getFromTablet_conflicts_witness:
  "\<exists>out. getFromTablet skip_first sample_prefs two_conflict_world [0, 1] = Some (Inr out) \<and>
          o_prompted out = [0, 1] \<and> o_applied out = [1] \<and>
          count_list (o_prompted out) 0 = 1 \<and>
          has_conflict sample_prefs two_conflict_world 0 \<and>
          info_mode (getTabletInfo sample_prefs two_conflict_world 0) = Some MODE_BACKGROUND \<and>
          w_atts (o_world out) 0 = w_atts two_conflict_world 0 \<and>
          lookup (w_fs (o_world out)) ''/mnt/tablet/a.pdf'' =
            Some \<lparr>lastModified = Some 10, content = ''a2''\<rparr>"
proof -
  note f = two_conflict_world_facts
  have skip: "\<forall>k. resolveConflict (skip_first k 0) = Cancel"
    by (simp add: skip_first_def resolveConflict_def)
  have others: "\<forall>b \<in> set [0, 1 :: nat]. isOnTablet sample_prefs two_conflict_world b \<and> b \<noteq> 0 \<longrightarrow>
                  (\<forall>g. gather_of sample_prefs two_conflict_world b = Gathered g \<longrightarrow>
                       g_tabletPath g \<noteq> ''/mnt/tablet/a.pdf'' \<and>
                       g_zoteroPath g \<noteq> Some ''/mnt/tablet/a.pdf'')"
    using f by auto
  from getFromTablet_conflicts [of skip_first sample_prefs two_conflict_world "[0, 1]"]
  obtain out where run: "getFromTablet skip_first sample_prefs two_conflict_world [0, 1] = Some (Inr out)"
    and pr: "o_prompted out = filter (has_conflict sample_prefs two_conflict_world)
                                (filter (isOnTablet sample_prefs two_conflict_world) [0, 1])"
    and ap: "o_applied out = filter (retrievable sample_prefs two_conflict_world)
                               (filter (isOnTablet sample_prefs two_conflict_world) [0, 1]) @
                             answered skip_first 0 (o_prompted out)"
    and once: "distinct [0, 1 :: nat] \<longrightarrow>
        (\<forall>a \<in> set [0, 1]. isOnTablet sample_prefs two_conflict_world a \<and>
             has_conflict sample_prefs two_conflict_world a \<longrightarrow> count_list (o_prompted out) a = 1)"
    and frame: "\<forall>a. has_conflict sample_prefs two_conflict_world a \<and>
                   (\<forall>k. resolveConflict (skip_first k a) = Cancel) \<longrightarrow>
        a \<notin> set (o_applied out) \<and> w_atts (o_world out) a = w_atts two_conflict_world a \<and>
        (\<forall>p f. lookup (w_fs two_conflict_world) p = Some f \<and> \<not> has_hidden p \<and>
               (\<forall>b \<in> set [0, 1]. isOnTablet sample_prefs two_conflict_world b \<and> b \<noteq> a \<longrightarrow>
                  (\<forall>g. gather_of sample_prefs two_conflict_world b = Gathered g \<longrightarrow>
                       g_tabletPath g \<noteq> p \<and> g_zoteroPath g \<noteq> Some p)) \<longrightarrow>
               lookup (w_fs (o_world out)) p = Some f)"
    by blast
  have p: "o_prompted out = [0, 1]" using pr f by simp
  have a: "o_applied out = [1]" using ap f by (simp add: p)
  have c: "count_list (o_prompted out) 0 = 1" using p by simp
  have "w_atts (o_world out) 0 = w_atts two_conflict_world 0 \<and>
        lookup (w_fs (o_world out)) ''/mnt/tablet/a.pdf'' =
          Some \<lparr>lastModified = Some 10, content = ''a2''\<rparr>"
    using frame [rule_format, of 0] skip others f by blast
  then show ?thesis using run p a c f by blast
qed

text \<open>
  Where the claim fails. In Move mode the tablet file and the library file are one file,
  so a single external change is reported as a conflict and the dialog is shown. And an
  attachment that is listed twice gets two dialogs in one pass.
\<close>

theorem getFromTablet_conflicts_counterexample:
  "info_mode (getTabletInfo sample_prefs move_world 0) = Some MODE_FOREGROUND \<and>
   prompted_in (getFromTablet always_cancel sample_prefs move_world [0]) = Some [0] \<and>
   prompted_in (getFromTablet always_cancel sample_prefs (tracked_world 20) [0, 0]) = Some [0, 0]"
  by code_simp

section \<open>A skipped conflict is left alone\<close>

text \<open>
  Claim C8, as the code has it. Let a file be in conflict and let every dialog shown for
  it be answered with skip. Then the pass leaves the attachment as it was (its tags, its
  note with the sync record, its link) and keeps it out of the cleanup and of the
  annotation extraction. And every file that existed before, has no hidden component in
  its path, and is neither the tablet copy nor the library copy of another tracked
  attachment in the list, is on disk afterwards as before: in particular the two copies
  of the skipped file, when no other attachment shares them.
\<close>

theorem skipped_conflict_untouched:
  assumes run: "getFromTablet user pr w atts = Some (Inr out)"
    and conflict: "has_conflict pr w a"
    and skip: "\<forall>k. resolveConflict (user k a) = Cancel"
  shows "w_atts (o_world out) a = w_atts w a \<and>
         a \<notin> set (o_toSaveDB out) \<and> a \<notin> set (o_toExtract out) \<and>
         (\<forall>p f. lookup (w_fs w) p = Some f \<and> \<not> has_hidden p \<and>
                (\<forall>b \<in> set atts. isOnTablet pr w b \<and> b \<noteq> a \<longrightarrow>
                   (\<forall>g. gather_of pr w b = Gathered g \<longrightarrow>
                        g_tabletPath g \<noteq> p \<and> g_zoteroPath g \<noteq> Some p)) \<longrightarrow>
                lookup (w_fs (o_world out)) p = Some f)"
  using skip_frame [OF run conflict skip] by blast

lemma two_file_world_facts:
  "has_conflict sample_prefs two_file_world 0 \<and>
   \<not> has_conflict sample_prefs two_file_world 1 \<and>
   gather_of sample_prefs two_file_world 1 =
     Gathered \<lparr>g_attachment = 1,
               g_info = PRecord (copy_record\<lparr>location := Str ''/mnt/tablet/b.pdf''\<rparr>),
               g_tabletPath = ''/mnt/tablet/b.pdf'',
               g_zoteroPath = Some ''/zotero/storage/KEY2/b.pdf'',
               g_tabletModified = True, g_zoteroModified = False, g_hasConflict = False,
               g_useTablet = None\<rparr> \<and>
   lookup (w_fs two_file_world) ''/mnt/tablet/a.pdf'' =
     Some \<lparr>lastModified = Some 10, content = ''a2''\<rparr> \<and>
   \<not> has_hidden ''/mnt/tablet/a.pdf''"
  by code_simp

theorem skipped_conflict_untouched_witness:
  "\<exists>out. getFromTablet always_cancel sample_prefs two_file_world [0, 1] = Some (Inr out) \<and>
          has_conflict sample_prefs two_file_world 0 \<and>
          w_atts (o_world out) 0 = w_atts two_file_world 0 \<and>
          0 \<notin> set (o_toSaveDB out) \<and>
          lookup (w_fs (o_world out)) ''/mnt/tablet/a.pdf'' =
            Some \<lparr>lastModified = Some 10, content = ''a2''\<rparr>"
proof -
  obtain out where
    run: "getFromTablet always_cancel sample_prefs two_file_world [0, 1] = Some (Inr out)"
    using getFromTablet_returns by blast
  have conflict: "has_conflict sample_prefs two_file_world 0"
    using two_file_world_facts by simp
  have skip: "\<forall>k. resolveConflict (always_cancel k 0) = Cancel"
    by (simp add: always_cancel_def resolveConflict_def)
  have others: "\<forall>b \<in> set [0, 1 :: nat]. isOnTablet sample_prefs two_file_world b \<and> b \<noteq> 0 \<longrightarrow>
                  (\<forall>g. gather_of sample_prefs two_file_world b = Gathered g \<longrightarrow>
                       g_tabletPath g \<noteq> ''/mnt/tablet/a.pdf'' \<and>
                       g_zoteroPath g \<noteq> Some ''/mnt/tablet/a.pdf'')"
    using two_file_world_facts by auto
  from skipped_conflict_untouched [OF run conflict skip] others two_file_world_facts
  have "w_atts (o_world out) 0 = w_atts two_file_world 0 \<and>
        0 \<notin> set (o_toSaveDB out) \<and>
        lookup (w_fs (o_world out)) ''/mnt/tablet/a.pdf'' =
          Some \<lparr>lastModified = Some 10, content = ''a2''\<rparr>"
    by blast
  then show ?thesis using run conflict by blast
qed

text \<open>
  Where the claim fails: an attachment that is listed twice gets two dialogs. When the
  first is answered with the tablet version and the second with skip, the file is
  retrieved all the same: its record is cleared and its tablet copy removed.
\<close>

theorem skipped_conflict_counterexample:
  "resolveConflict (tablet_then_cancel 1 0) = Cancel \<and>
   data_el (anote (w_atts (tracked_world 20) 0)) \<noteq> None \<and>
   fileExists (w_fs (tracked_world 20)) ''/mnt/tablet/a.pdf'' \<and>
   observe_pass (getFromTablet tablet_then_cancel sample_prefs (tracked_world 20) [0, 0]) 0
     ''/mnt/tablet/a.pdf'' = Some ([0, 0], None, False)"
  by code_simp

section \<open>The stored location and the configured root\<close>

text \<open>
  When the root is a literal prefix of the written path, the record holds the placeholder
  followed by the rest of the path; and a root without dollar sign and without trailing
  separator is put back in its place on reading. Under these conditions a record written
  under one root resolves to the same relative path under another.
\<close>

lemma find_first_prefix: "pat \<noteq> [] \<Longrightarrow> find_first pat (pat @ r) = Some ([], r)"
  by (cases pat) simp_all

lemma expand_template_plain: "CHR ''$'' \<notin> set rep \<Longrightarrow> expand_template rep m b a = rep"
  by (induction rep m b a rule: expand_template.induct) auto

lemma stored_location_prefix:
  "destDir pr \<noteq> [] \<Longrightarrow> stored_location pr (destDir pr @ r) = ''[BaseFolder]'' @ r"
  by (simp add: stored_location_def js_replace_def find_first_prefix)

lemma resolve_placeholder:
  "CHR ''$'' \<notin> set root \<Longrightarrow> js_replace (''[BaseFolder]'' @ r) ''[BaseFolder]'' root = root @ r"
  using find_first_prefix [of "''[BaseFolder]''" r]
  by (simp add: js_replace_def expand_template_plain)

lemma relocation:
  assumes "destDir pr1 \<noteq> []"
    and "CHR ''$'' \<notin> set (destDir pr2)" and "strip_trailing_sep (destDir pr2) = destDir pr2"
  shows "info_location (getTabletInfo pr2
           (setTabletInfo w a \<lparr>location = Str (stored_location pr1 (destDir pr1 @ r)),
                                lastmod = t, mode = m, projectFolder = pf\<rparr>) a)
         = Str (destDir pr2 @ r)"
  using assms resolve_placeholder [of "destDir pr2" r]
  by (simp add: stored_location_prefix getTabletInfo_def getTabletInfo_try_def setTabletInfo_def
      upd_att_def note_is_empty_def del: append.simps)


text \<open>
  Claim C2 at a root written with a trailing separator. The file is written to
  \<^verbatim>\<open>/mnt/tablet/a.pdf\<close>; the record holds \<^verbatim>\<open>[BaseFolder]a.pdf\<close>, because the root is
  replaced together with its separator; reading cuts the separator off the root first
  and arrives at \<^verbatim>\<open>/mnt/tableta.pdf\<close>, where no file is.
\<close>

theorem trailing_separator_loses_file:
  "send_and_read plain_renderer slash_prefs unsent_world 0 =
     Some (Str ''[BaseFolder]a.pdf'', Str ''/mnt/tableta.pdf'',
           [''/zotero/storage/KEY1/a.pdf'', ''/mnt/tablet/a.pdf''])"
  by code_simp

section \<open>Collision-safe names\<close>

text \<open>
  What the loop does for a taken destination: it tries the candidates with the suffixes
  \<open>_2\<close>, \<open>_3\<close>, \<dots> in turn and returns the first that does not exist, up to the
  suffix \<open>_998\<close>; when all of them exist it fails and nothing is written. For a path
  with an extension the candidate puts the suffix before the dot and the extension in
  lower case. A copy that succeeds never replaces an existing file.
\<close>

lemma rename_loop_first_free:
  assumes "rename_loop fs d f c = Inr r" and "fileExists fs f"
  shows "\<exists>k. c \<le> k \<and> k < MAX_RENAME_COUNTER \<and> r = candidate d k \<and> \<not> fileExists fs r \<and>
             (\<forall>j. c \<le> j \<and> j < k \<longrightarrow> fileExists fs (candidate d j))"
  using assms
proof (induction fs d f c rule: rename_loop.induct)
  case (1 fs destPath finalPath counter)
  have small: "\<not> counter + 1 > MAX_RENAME_COUNTER"
    using "1.prems" by (subst (asm) rename_loop.simps) (auto simp: Let_def split: if_splits)
  have next_run: "rename_loop fs destPath (candidate destPath counter) (counter + 1) = Inr r"
    using "1.prems" small by (subst (asm) rename_loop.simps) (simp add: Let_def)
  show ?case
  proof (cases "fileExists fs (candidate destPath counter)")
    case False
    then have "r = candidate destPath counter"
      using next_run by (subst (asm) rename_loop.simps) simp
    then show ?thesis using False small by (intro exI [of _ counter]) auto
  next
    case True
    have "\<exists>k. counter + 1 \<le> k \<and> k < MAX_RENAME_COUNTER \<and> r = candidate destPath k \<and>
              \<not> fileExists fs r \<and>
              (\<forall>j. counter + 1 \<le> j \<and> j < k \<longrightarrow> fileExists fs (candidate destPath j))"
      by (rule "1.IH" [OF "1.prems"(2) refl refl small next_run True])
    then obtain k where k: "counter + 1 \<le> k" "k < MAX_RENAME_COUNTER" "r = candidate destPath k"
      "\<not> fileExists fs r" "\<forall>j. counter + 1 \<le> j \<and> j < k \<longrightarrow> fileExists fs (candidate destPath j)"
      by blast
    have "\<forall>j. counter \<le> j \<and> j < k \<longrightarrow> fileExists fs (candidate destPath j)"
    proof (intro allI impI)
      fix j assume j: "counter \<le> j \<and> j < k"
      show "fileExists fs (candidate destPath j)"
      proof (cases "j = counter")
        case True
        then show ?thesis using \<open>fileExists fs (candidate destPath counter)\<close> by simp
      next
        case False
        then show ?thesis using j k(5) by auto
      qed
    qed
    then show ?thesis using k by (intro exI [of _ k]) auto
  qed
qed

lemma rename_loop_too_many:
  assumes "rename_loop fs d f c = Inl e"
  shows "e = TooManyFiles \<and> fileExists fs f \<and>
         (\<forall>j. c \<le> j \<and> j < MAX_RENAME_COUNTER \<longrightarrow> fileExists fs (candidate d j))"
  using assms
proof (induction fs d f c rule: rename_loop.induct)
  case (1 fs destPath finalPath counter)
  have ex: "fileExists fs finalPath"
    using "1.prems" by (subst (asm) rename_loop.simps) (auto split: if_splits)
  show ?case
  proof (cases "counter + 1 > MAX_RENAME_COUNTER")
    case True
    then have "e = TooManyFiles"
      using "1.prems" ex by (subst (asm) rename_loop.simps) (simp add: Let_def)
    then show ?thesis using ex True by auto
  next
    case False
    then have next_run: "rename_loop fs destPath (candidate destPath counter) (counter + 1) = Inl e"
      using "1.prems" ex by (subst (asm) rename_loop.simps) (simp add: Let_def)
    have IH: "e = TooManyFiles \<and> fileExists fs (candidate destPath counter) \<and>
              (\<forall>j. counter + 1 \<le> j \<and> j < MAX_RENAME_COUNTER \<longrightarrow> fileExists fs (candidate destPath j))"
      by (rule "1.IH" [OF ex refl refl False next_run])
    have "\<forall>j. counter \<le> j \<and> j < MAX_RENAME_COUNTER \<longrightarrow> fileExists fs (candidate destPath j)"
    proof (intro allI impI)
      fix j assume j: "counter \<le> j \<and> j < MAX_RENAME_COUNTER"
      show "fileExists fs (candidate destPath j)"
      proof (cases "j = counter")
        case True
        then show ?thesis using IH by simp
      next
        case False
        then show ?thesis using j IH by auto
      qed
    qed
    then show ?thesis using IH ex by simp
  qed
qed

lemma getFileExtension_dotted:
  assumes "CHR ''.'' \<notin> set ext"
  shows "getFileExtension (stem @ CHR ''.'' # ext) = map toLowerCase_char ext"
proof -
  have "takeWhile (\<lambda>c. c \<noteq> CHR ''.'') (rev ext @ CHR ''.'' # rev stem) = rev ext"
    using assms by (intro takeWhile_tail [THEN trans]) (auto simp: takeWhile_eq_all_conv)
  then show ?thesis by (simp add: getFileExtension_def)
qed

lemma candidate_dotted:
  assumes "CHR ''.'' \<notin> set ext"
  shows "candidate (stem @ CHR ''.'' # ext) k =
           stem @ ''_'' @ string_of_nat k @ ''.'' @ map toLowerCase_char ext"
  by (simp add: candidate_def getFileExtension_dotted [OF assms])

lemma copyFile_no_clobber:
  assumes "copyFile fs src dst False = (Inr r, fs')"
  shows "lookup fs r = None \<and> lookup fs' r = lookup fs src \<and>
         (\<forall>p. p \<noteq> r \<longrightarrow> lookup fs' p = lookup fs p)"
proof -
  obtain fs1 where ed: "ensureDirectory fs (getParentDir dst) = Inr fs1"
    using assms by (cases "ensureDirectory fs (getParentDir dst)") (auto simp: copyFile_def)
  obtain fin where rl: "rename_loop fs1 dst dst 2 = Inr fin"
    using assms ed by (cases "rename_loop fs1 dst dst 2") (auto simp: copyFile_def)
  obtain fs2 where cp: "IOUtils_copy fs1 src fin = Inr fs2"
    using assms ed rl by (cases "IOUtils_copy fs1 src fin") (auto simp: copyFile_def)
  have r: "r = fin" "fs' = fs2" using assms ed rl cp by (auto simp: copyFile_def)
  have l: "lookup fs1 p = lookup fs p" for p using ed by (rule ensureDirectory_files)
  have "\<not> fileExists fs1 fin" using rl by (rule rename_loop_fresh)
  then have none: "lookup fs r = None" using l r by (auto simp: fileExists_def)
  have wr: "lookup fs2 fin = lookup fs1 src"
    using cp by (auto simp: IOUtils_copy_def lookup_def update_conv' split: option.splits if_splits)
  have other: "lookup fs2 p = lookup fs p" if "p \<noteq> fin" for p
    using IOUtils_copy_other [OF cp that] l by simp
  show ?thesis using none wr other r l by simp
qed

lemma copyFile_failure_keeps_files:
  assumes "copyFile fs src dst False = (Inl e, fs')"
  shows "lookup fs' p = lookup fs p"
proof (cases "ensureDirectory fs (getParentDir dst)")
  case (Inl e')
  then show ?thesis using assms by (simp add: copyFile_def)
next
  case (Inr fs1)
  have l: "lookup fs1 p = lookup fs p" using Inr by (rule ensureDirectory_files)
  show ?thesis
  proof (cases "rename_loop fs1 dst dst 2")
    case (Inl e')
    then show ?thesis using assms Inr l by (simp add: copyFile_def)
  next
    case fin: (Inr f)
    then show ?thesis using assms Inr l
      by (cases "IOUtils_copy fs1 src f") (auto simp: copyFile_def)
  qed
qed


text \<open>
  Claim C4 at a destination without extension. The taken name \<^verbatim>\<open>/t/README\<close> does not
  become \<^verbatim>\<open>/t/README_2\<close>: the loop cuts one character for a dot that is not there
  and writes \<^verbatim>\<open>/t/READM_2.\<close>, in \<^verbatim>\<open>copyFile\<close> and in \<^verbatim>\<open>moveFile\<close> alike.
\<close>

theorem dotless_name_loses_character:
  "fst (copyFile dotless_fs ''/s/x'' ''/t/README'' False) = Inr ''/t/READM_2.'' \<and>
   fst (moveFile dotless_fs ''/s/x'' ''/t/README'') = Inr ''/t/READM_2.''"
  by code_simp



end
